theory Spec2Isabelle
  imports Complex_Main "HOL-Library.Signed_Division"
begin

section \<open>Data model\<close>

text \<open>
  The kernels of \<^verbatim>\<open>cuda_utils.cu\<close> work on row-major buffers of C \<^verbatim>\<open>float\<close>.
  The embedding idealises \<^verbatim>\<open>float\<close> and \<^verbatim>\<open>double\<close> as the real numbers: rounding,
  infinities and NaN are not represented. Kernels that only add and multiply are
  defined for an arbitrary semiring (commutative monoid for the row sum), and the
  transpose kernel for an arbitrary element type. The exception is \<^verbatim>\<open>tril\<close>, where
  rounding decides which branch is taken: its conversions and divisions are the
  binary32 operations of the section on binary32 arithmetic, and its call of the
  library's \<^verbatim>\<open>exp\<close> is a parameter.

  Dimensions and indices are natural numbers: the C \<^verbatim>\<open>int\<close> values are counts, and no
  claim depends on 32-bit overflow. A buffer is the list of its elements. Reading or
  writing a C array out of range is undefined behaviour, while \<open>xs ! i\<close> is an
  unspecified value and \<open>xs[i := v]\<close> leaves \<open>xs\<close> as it is; the theorems therefore
  assume buffer lengths that keep every access of the kernel in range.
\<close>

type_synonym float = real
type_synonym double = real

section \<open>Softmax sampler: the inverse-CDF scan\<close>

text \<open>
  \<^verbatim>\<open>weightedSampleKernel\<close>: the \<^verbatim>\<open>while\<close> loop with its \<^verbatim>\<open>break\<close>; the value
  returned is what the kernel stores in \<^verbatim>\<open>*output\<close>.
\<close>

function weightedSample_loop :: "float list \<Rightarrow> double \<Rightarrow> nat \<Rightarrow> double \<Rightarrow> nat \<Rightarrow> nat" where
  "weightedSample_loop probs rand_val len csum tmp =
     (if tmp < len then
        (if csum + probs ! tmp \<ge> rand_val then tmp
         else weightedSample_loop probs rand_val len (csum + probs ! tmp) (tmp + 1))
      else tmp)"
  by pat_completeness auto
termination
  by (relation "measure (\<lambda>(probs, rand_val, len, csum, tmp). len - tmp)") auto

declare weightedSample_loop.simps [simp del]

definition weightedSampleKernel :: "float list \<Rightarrow> double \<Rightarrow> nat \<Rightarrow> nat" where
  "weightedSampleKernel probs rand_val len = weightedSample_loop probs rand_val len 0 0"

section \<open>Launch geometry\<close>

text \<open>
  A launch \<^verbatim>\<open><<<dimGrid, dimBlock>>>\<close> runs one thread for every block index below
  \<^verbatim>\<open>dimGrid\<close> and every thread index below \<^verbatim>\<open>dimBlock\<close>. A kernel without barriers is
  run by folding the body of a thread over the threads of the grid. A kernel with
  \<^verbatim>\<open>__syncthreads()\<close> is run block by block, with one fold over the threads of the
  block for each phase between two barriers. In every kernel below a thread writes
  cells that no other thread reads in the same phase, or writes the value that is
  already there, so the runs of the model are the runs of the device.
\<close>

definition CEIL_DIV :: "nat \<Rightarrow> nat \<Rightarrow> nat" where
  "CEIL_DIV a b = (a + b - 1) div b"

datatype thread =
  Thread (blockIdx_x: nat) (blockIdx_y: nat) (threadIdx_x: nat) (threadIdx_y: nat)

definition block_threads :: "nat \<Rightarrow> nat \<Rightarrow> nat \<Rightarrow> nat \<Rightarrow> thread list" where
  "block_threads blockDim_x blockDim_y bx byy =
     concat (map (\<lambda>ty. map (\<lambda>tx. Thread bx byy tx ty) [0..<blockDim_x]) [0..<blockDim_y])"

definition grid_blocks :: "nat \<Rightarrow> nat \<Rightarrow> (nat \<times> nat) list" where
  "grid_blocks gridDim_x gridDim_y =
     concat (map (\<lambda>byy. map (\<lambda>bx. (bx, byy)) [0..<gridDim_x]) [0..<gridDim_y])"

definition grid_threads :: "nat \<Rightarrow> nat \<Rightarrow> nat \<Rightarrow> nat \<Rightarrow> thread list" where
  "grid_threads gridDim_x gridDim_y blockDim_x blockDim_y =
     concat (map (\<lambda>(bx, byy). block_threads blockDim_x blockDim_y bx byy)
                 (grid_blocks gridDim_x gridDim_y))"

section \<open>Matrix descriptor and device memory\<close>

text \<open>
  \<^verbatim>\<open>typedef struct { float* dat; int rows, cols; } Matrix;\<close>
  A pointer is the address of a buffer; the store maps each address to the contents of
  its buffer. Two descriptors with the same \<^verbatim>\<open>dat\<close> alias.
\<close>

record Matrix =
  dat :: nat
  rows :: nat
  cols :: nat

type_synonym store = "nat \<Rightarrow> float list"

section \<open>Binary32 arithmetic\<close>

text \<open>
  The \<^verbatim>\<open>float\<close> of the host and of the device is IEEE 754 binary32: a finite float is
  \<open>m * 2 ^ (e - 23)\<close> for integers \<open>m\<close> and \<open>e\<close> with \<open>\<bar>m\<bar> < 2 ^ 24\<close> and \<open>- 126 \<le> e \<le> 127\<close>.
  An operation returns the float nearest to the exact result, the one with the even
  \<open>m\<close> when two are equally near. \<open>round32 x\<close> is that float for a real \<open>x\<close>:
  \<open>float_ulp x\<close> is the distance between the floats around \<open>x\<close> (for \<open>\<bar>x\<bar> < 2 ^ (- 126)\<close>
  that of the subnormal floats), and \<open>x\<close> is rounded to a multiple of it. The exponent
  is not bounded above: an infinity, the result of the machine from \<open>2 ^ 128\<close> on, is
  not represented.

  \<open>float_of_int\<close> is the conversion of an \<^verbatim>\<open>int\<close> to \<^verbatim>\<open>float\<close> and \<open>float_div\<close> the operator
  \<^verbatim>\<open>/\<close> on two floats, both correctly rounded (the division of the device is, unless
  the file is compiled with \<^verbatim>\<open>-use_fast_math\<close>).
\<close>

definition round_half_even :: "real \<Rightarrow> int" where
  "round_half_even y =
     (if y - of_int \<lfloor>y\<rfloor> < 1 / 2 then \<lfloor>y\<rfloor>
      else if 1 / 2 < y - of_int \<lfloor>y\<rfloor> then \<lfloor>y\<rfloor> + 1
      else if even \<lfloor>y\<rfloor> then \<lfloor>y\<rfloor> else \<lfloor>y\<rfloor> + 1)"

definition float_exponent :: "real \<Rightarrow> int" where
  "float_exponent x = max \<lfloor>log 2 \<bar>x\<bar>\<rfloor> (- 126)"

definition float_ulp :: "real \<Rightarrow> real" where
  "float_ulp x = 2 powr (of_int (float_exponent x) - 23)"

definition round32 :: "real \<Rightarrow> float" where
  "round32 x = (if x = 0 then 0 else of_int (round_half_even (x / float_ulp x)) * float_ulp x)"

definition float_of_int :: "int \<Rightarrow> float" where
  "float_of_int n = round32 (of_int n)"

definition float_div :: "float \<Rightarrow> float \<Rightarrow> float" where
  "float_div x y = round32 (x / y)"

section \<open>Elementwise engine\<close>

text \<open>The cast \<^verbatim>\<open>(int)k\<close> of a float truncates towards zero.\<close>

definition int_of_float :: "float \<Rightarrow> int" where
  "int_of_float k = (if 0 \<le> k then \<lfloor>k\<rfloor> else \<lceil>k\<rceil>)"

text \<open>
  The \<^verbatim>\<open>opr\<close> arguments of the \<^verbatim>\<open>UNARY\<close> macro, as functions of the names the macro
  body has in scope: the buffer \<^verbatim>\<open>a\<close>, the flat index \<^verbatim>\<open>i\<close>, the column count, the
  element \<^verbatim>\<open>b\<close> and the constant \<^verbatim>\<open>k\<close>.

  In \<^verbatim>\<open>tril\<close>, whose text is \<^verbatim>\<open>(i / k < i % (int)k) ? 0 : exp(b / 8)\<close> with \<^verbatim>\<open>int i\<close> and
  \<^verbatim>\<open>float k\<close>, the quotient \<^verbatim>\<open>i / k\<close> converts \<^verbatim>\<open>i\<close> to float and divides two floats,
  \<^verbatim>\<open>i % (int)k\<close> is the integer remainder of C, converted to float for the comparison,
  and \<^verbatim>\<open>b / 8\<close> divides two floats. The function \<^verbatim>\<open>exp\<close> comes from the mathematical
  library of the host or of the device, not from this repository: it is the
  parameter \<open>fexp\<close>, the value that the call leaves in a float.
\<close>

type_synonym unary_opr = "float list \<Rightarrow> nat \<Rightarrow> nat \<Rightarrow> float \<Rightarrow> float \<Rightarrow> float"

definition opr_divide_const :: unary_opr where
  "opr_divide_const a i aCols b k = b / k"

definition opr_add_const :: unary_opr where
  "opr_add_const a i aCols b k = b + k"

definition opr_mat_isqrt :: unary_opr where
  "opr_mat_isqrt a i aCols b k = 1 / sqrt b"

definition opr_mat_exp :: unary_opr where
  "opr_mat_exp a i aCols b k = exp b"

definition opr_broadcast :: unary_opr where
  "opr_broadcast a i aCols b k = a ! ((i div aCols) * aCols)"

definition opr_tril :: "(float \<Rightarrow> float) \<Rightarrow> unary_opr" where
  "opr_tril fexp a i aCols b k =
     (if float_div (float_of_int (int i)) k < float_of_int (int i smod int_of_float k) then 0
      else fexp (float_div b 8))"

definition opr_GELU :: unary_opr where
  "opr_GELU a i aCols b k = b / 2 * (1 + tanh (0.7978845 * (b + 0.044715 * b * b * b)))"

text \<open>
  GPU side. \<^verbatim>\<open>fn##Kernel_MTP(a, aRows, aCols, out, k)\<close> is the body of one thread;
  \<^verbatim>\<open>fn##CUDA(m, k)\<close> launches it on a grid of 32 x 32 blocks with \<^verbatim>\<open>out = a\<close> and
  returns \<^verbatim>\<open>m\<close>.
\<close>

definition UNARY_Kernel_MTP ::
  "unary_opr \<Rightarrow> nat \<Rightarrow> nat \<Rightarrow> nat \<Rightarrow> nat \<Rightarrow> float \<Rightarrow> nat \<Rightarrow> nat \<Rightarrow> thread \<Rightarrow> store \<Rightarrow> store" where
  "UNARY_Kernel_MTP opr a aRows aCols out k blockDim_x blockDim_y t s =
     (let row = blockIdx_y t * blockDim_y + threadIdx_y t;
          col = blockIdx_x t * blockDim_x + threadIdx_x t
      in if row < aRows \<and> col < aCols then
           (let i = row * aCols + col;
                b = s a ! i;
                b = b + 0
            in s(out := (s out)[i := opr (s a) i aCols b k]))
         else s)"

definition UNARY_CUDA :: "unary_opr \<Rightarrow> store \<Rightarrow> Matrix \<Rightarrow> float \<Rightarrow> store \<times> Matrix" where
  "UNARY_CUDA opr s m k =
     (let a = dat m; aRows = rows m; aCols = cols m;
          gridSize_x = (aCols + 32 - 1) div 32;
          gridSize_y = (aRows + 32 - 1) div 32
      in (fold (UNARY_Kernel_MTP opr a aRows aCols a k 32 32)
               (grid_threads gridSize_x gridSize_y 32 32) s, m))"

definition divide_constCUDA :: "store \<Rightarrow> Matrix \<Rightarrow> float \<Rightarrow> store \<times> Matrix" where
  "divide_constCUDA = UNARY_CUDA opr_divide_const"

definition add_constCUDA :: "store \<Rightarrow> Matrix \<Rightarrow> float \<Rightarrow> store \<times> Matrix" where
  "add_constCUDA = UNARY_CUDA opr_add_const"

definition mat_isqrtCUDA :: "store \<Rightarrow> Matrix \<Rightarrow> float \<Rightarrow> store \<times> Matrix" where
  "mat_isqrtCUDA = UNARY_CUDA opr_mat_isqrt"

definition mat_expCUDA :: "store \<Rightarrow> Matrix \<Rightarrow> float \<Rightarrow> store \<times> Matrix" where
  "mat_expCUDA = UNARY_CUDA opr_mat_exp"

definition broadcastCUDA :: "store \<Rightarrow> Matrix \<Rightarrow> float \<Rightarrow> store \<times> Matrix" where
  "broadcastCUDA = UNARY_CUDA opr_broadcast"

definition trilCUDA :: "(float \<Rightarrow> float) \<Rightarrow> store \<Rightarrow> Matrix \<Rightarrow> float \<Rightarrow> store \<times> Matrix" where
  "trilCUDA fexp = UNARY_CUDA (opr_tril fexp)"

definition GELUCUDA :: "store \<Rightarrow> Matrix \<Rightarrow> float \<Rightarrow> store \<times> Matrix" where
  "GELUCUDA = UNARY_CUDA opr_GELU"

text \<open>
  CPU reference. \<^verbatim>\<open>LOOP(i, a.rows * a.cols) { float b = a.dat[i]; a.dat[i] = opr; }\<close>
\<close>

definition UNARY :: "unary_opr \<Rightarrow> store \<Rightarrow> Matrix \<Rightarrow> float \<Rightarrow> store \<times> Matrix" where
  "UNARY opr s a k =
     (fold (\<lambda>i s. let b = s (dat a) ! i
                   in s(dat a := (s (dat a))[i := opr (s (dat a)) i (cols a) b k]))
           [0..<rows a * cols a] s, a)"

definition broadcast :: "store \<Rightarrow> Matrix \<Rightarrow> float \<Rightarrow> store \<times> Matrix" where
  "broadcast = UNARY opr_broadcast"

definition tril :: "(float \<Rightarrow> float) \<Rightarrow> store \<Rightarrow> Matrix \<Rightarrow> float \<Rightarrow> store \<times> Matrix" where
  "tril fexp = UNARY (opr_tril fexp)"

text \<open>
  The \<^verbatim>\<open>opr\<close> arguments of the \<^verbatim>\<open>BINARY\<close> macro, whose statement is
  \<^verbatim>\<open>a[i] = a[i] opr b[i];\<close>. They are functions of \<^verbatim>\<open>a[i]\<close>, the buffer \<^verbatim>\<open>b\<close>, the
  index \<^verbatim>\<open>i\<close> and the column count of \<^verbatim>\<open>a\<close>. For the tile variants the macro text
  expands to \<^verbatim>\<open>a[i] = a[i] + b[i % aCols]; (void) b[i];\<close>.
\<close>

type_synonym binary_opr = "float \<Rightarrow> float list \<Rightarrow> nat \<Rightarrow> nat \<Rightarrow> float"

definition opr_add :: binary_opr where
  "opr_add x b i aCols = x + b ! i"

definition opr_multiply :: binary_opr where
  "opr_multiply x b i aCols = x * b ! i"

definition opr_divide :: binary_opr where
  "opr_divide x b i aCols = x / b ! i"

definition opr_add_tile :: binary_opr where
  "opr_add_tile x b i aCols = x + b ! (i mod aCols)"

definition opr_multiply_tile :: binary_opr where
  "opr_multiply_tile x b i aCols = x * b ! (i mod aCols)"

definition BINARY_Kernel_MTP ::
  "binary_opr \<Rightarrow> nat \<Rightarrow> nat \<Rightarrow> nat \<Rightarrow> nat \<Rightarrow> nat \<Rightarrow> nat \<Rightarrow> nat \<Rightarrow> thread \<Rightarrow> store \<Rightarrow> store" where
  "BINARY_Kernel_MTP opr a aRows aCols b out blockDim_x blockDim_y t s =
     (let row = blockIdx_y t * blockDim_y + threadIdx_y t;
          col = blockIdx_x t * blockDim_x + threadIdx_x t
      in if row < aRows \<and> col < aCols then
           (let i = row * aCols + col
            in s(a := (s a)[i := opr (s a ! i) (s b) i aCols]))
         else s)"

definition BINARY_CUDA :: "binary_opr \<Rightarrow> store \<Rightarrow> Matrix \<Rightarrow> Matrix \<Rightarrow> store \<times> Matrix" where
  "BINARY_CUDA opr s a b =
     (let gridSize_x = (cols a + 32 - 1) div 32;
          gridSize_y = (rows a + 32 - 1) div 32
      in (fold (BINARY_Kernel_MTP opr (dat a) (rows a) (cols a) (dat b) (dat a) 32 32)
               (grid_threads gridSize_x gridSize_y 32 32) s, a))"

definition addCUDA :: "store \<Rightarrow> Matrix \<Rightarrow> Matrix \<Rightarrow> store \<times> Matrix" where
  "addCUDA = BINARY_CUDA opr_add"

definition multiplyCUDA :: "store \<Rightarrow> Matrix \<Rightarrow> Matrix \<Rightarrow> store \<times> Matrix" where
  "multiplyCUDA = BINARY_CUDA opr_multiply"

definition divideCUDA :: "store \<Rightarrow> Matrix \<Rightarrow> Matrix \<Rightarrow> store \<times> Matrix" where
  "divideCUDA = BINARY_CUDA opr_divide"

definition add_tileCUDA :: "store \<Rightarrow> Matrix \<Rightarrow> Matrix \<Rightarrow> store \<times> Matrix" where
  "add_tileCUDA = BINARY_CUDA opr_add_tile"

definition multiply_tileCUDA :: "store \<Rightarrow> Matrix \<Rightarrow> Matrix \<Rightarrow> store \<times> Matrix" where
  "multiply_tileCUDA = BINARY_CUDA opr_multiply_tile"

text \<open>
  CPU reference. \<^verbatim>\<open>LOOP(i, a.rows * a.cols) { a.dat[i] = a.dat[i] opr b.dat[i]; }\<close>
\<close>

definition BINARY :: "binary_opr \<Rightarrow> store \<Rightarrow> Matrix \<Rightarrow> Matrix \<Rightarrow> store \<times> Matrix" where
  "BINARY opr s a b =
     (fold (\<lambda>i s. s(dat a := (s (dat a))[i := opr (s (dat a) ! i) (s (dat b)) i (cols a)]))
           [0..<rows a * cols a] s, a)"

definition add_tile :: "store \<Rightarrow> Matrix \<Rightarrow> Matrix \<Rightarrow> store \<times> Matrix" where
  "add_tile = BINARY opr_add_tile"

definition multiply_tile :: "store \<Rightarrow> Matrix \<Rightarrow> Matrix \<Rightarrow> store \<times> Matrix" where
  "multiply_tile = BINARY opr_multiply_tile"

section \<open>Matrix-multiply engine\<close>

text \<open>
  The kernels receive three device pointers; the model passes the three buffers as
  separate lists, so \<^verbatim>\<open>C\<close> does not alias \<^verbatim>\<open>A\<close> or \<^verbatim>\<open>B\<close>. A kernel returns the new
  contents of \<^verbatim>\<open>C\<close>. The element type is any semiring with zero.

  \<^verbatim>\<open>matMulCudaKernelNaive\<close>: the body of one thread.
\<close>

definition matMulCudaKernelNaive ::
  "'a::semiring_0 list \<Rightarrow> 'a list \<Rightarrow> nat \<Rightarrow> nat \<Rightarrow> nat \<Rightarrow> nat \<Rightarrow> nat \<Rightarrow> thread \<Rightarrow> 'a list \<Rightarrow> 'a list" where
  "matMulCudaKernelNaive A B aRows aCols bRows blockDim_x blockDim_y t C =
     (let row = blockIdx_y t * blockDim_y + threadIdx_y t;
          col = blockIdx_x t * blockDim_x + threadIdx_x t
      in if row < aRows \<and> col < bRows then
           (let acc = fold (\<lambda>k acc. acc + A ! (row * aCols + k) * B ! (col * aCols + k))
                        [0..<aCols] 0
            in C[row * bRows + col := acc])
         else C)"

text \<open>
  The spec's error taxonomy names \<^verbatim>\<open>DimensionMismatch\<close>. The entry points are C
  functions returning \<^verbatim>\<open>void\<close> that never read the CUDA error state, so every call
  ends normally: the outcome type has an error alternative only so that its absence can
  be stated.
\<close>

datatype error = AllocationFailure | DimensionMismatch | LaunchFailure | TransferFailure
  | NumericInstability

text \<open>
  \<^verbatim>\<open>matMulCUDANaive\<close> works on host arrays: it copies \<^verbatim>\<open>aRows * aCols\<close> entries of
  \<^verbatim>\<open>a\<close> and \<^verbatim>\<open>bRows * bCols\<close> entries of \<^verbatim>\<open>b\<close> to fresh device buffers, launches the
  naive kernel on a grid of 32 x 32 blocks, and copies \<^verbatim>\<open>aRows * bRows\<close> entries back
  into \<^verbatim>\<open>out\<close>. The argument \<open>d_C\<close> is the uninitialised contents of the buffer
  \<^verbatim>\<open>cudaMalloc\<close> returns for the result.
\<close>

definition matMulCUDANaive ::
  "'a::semiring_0 list \<Rightarrow> nat \<Rightarrow> nat \<Rightarrow> 'a list \<Rightarrow> nat \<Rightarrow> nat \<Rightarrow> 'a list \<Rightarrow> 'a list \<Rightarrow> error + 'a list" where
  "matMulCUDANaive a aRows aCols b bRows bCols out d_C =
     (let sizeA = aRows * aCols; sizeB = bRows * bCols; sizeC = aRows * bRows;
          d_A = take sizeA a;
          d_B = take sizeB b;
          d_C = fold (matMulCudaKernelNaive d_A d_B aRows aCols bRows 32 32)
                  (grid_threads (CEIL_DIV bRows 32) (CEIL_DIV aRows 32) 32 32) d_C
      in Inr (take sizeC d_C @ drop sizeC out))"

text \<open>
  \<^verbatim>\<open>matMulCudaKernelOptimized\<close>, one block at a time. The shared tiles \<^verbatim>\<open>As\<close> and
  \<^verbatim>\<open>Bs\<close> are functions of \<^verbatim>\<open>(y, x)\<close>; the register \<^verbatim>\<open>value\<close> of each thread is a
  function of the thread. Every iteration of the tile loop has a load phase and an
  accumulate phase, each ended by \<^verbatim>\<open>__syncthreads()\<close>; the trip count
  \<^verbatim>\<open>(aCols - 1) / TILE_SIZE + 1\<close> uses C's truncating division. After the loop every
  thread inside the matrix stores its register. \<open>As0\<close> and \<open>Bs0\<close> are the uninitialised
  contents of the shared memory.
\<close>

type_synonym 'a tile = "nat \<times> nat \<Rightarrow> 'a"

definition load_tiles ::
  "'a::semiring_0 list \<Rightarrow> 'a list \<Rightarrow> nat \<Rightarrow> nat \<Rightarrow> nat \<Rightarrow> nat \<Rightarrow> nat \<Rightarrow> nat \<Rightarrow> thread
     \<Rightarrow> 'a tile \<times> 'a tile \<Rightarrow> 'a tile \<times> 'a tile" where
  "load_tiles A B aRows aCols bRows blockDim_x blockDim_y m t = (\<lambda>(As, Bs).
     (let row = blockIdx_y t * blockDim_y + threadIdx_y t;
          col = blockIdx_x t * blockDim_x + threadIdx_x t
      in (As((threadIdx_y t, threadIdx_x t) :=
              (if m * 32 + threadIdx_x t < aCols \<and> row < aRows
               then A ! (row * aCols + m * 32 + threadIdx_x t) else 0)),
          Bs((threadIdx_y t, threadIdx_x t) :=
              (if m * 32 + threadIdx_y t < aCols \<and> col < bRows
               then B ! (col * aCols + m * 32 + threadIdx_y t) else 0)))))"

definition accumulate_tile ::
  "'a::semiring_0 tile \<Rightarrow> 'a tile \<Rightarrow> thread \<Rightarrow> (thread \<Rightarrow> 'a) \<Rightarrow> (thread \<Rightarrow> 'a)" where
  "accumulate_tile As Bs t regs =
     regs(t := fold (\<lambda>k acc. acc + As (threadIdx_y t, k) * Bs (k, threadIdx_x t))
                 [0..<32] (regs t))"

definition tile_iteration ::
  "'a::semiring_0 list \<Rightarrow> 'a list \<Rightarrow> nat \<Rightarrow> nat \<Rightarrow> nat \<Rightarrow> nat \<Rightarrow> nat \<Rightarrow> thread list \<Rightarrow> nat
     \<Rightarrow> 'a tile \<times> 'a tile \<times> (thread \<Rightarrow> 'a) \<Rightarrow> 'a tile \<times> 'a tile \<times> (thread \<Rightarrow> 'a)" where
  "tile_iteration A B aRows aCols bRows blockDim_x blockDim_y ts m = (\<lambda>(As, Bs, regs).
     (let (As, Bs) = fold (load_tiles A B aRows aCols bRows blockDim_x blockDim_y m) ts (As, Bs);
          regs = fold (accumulate_tile As Bs) ts regs
      in (As, Bs, regs)))"

definition store_result ::
  "nat \<Rightarrow> nat \<Rightarrow> nat \<Rightarrow> nat \<Rightarrow> (thread \<Rightarrow> 'a) \<Rightarrow> thread \<Rightarrow> 'a list \<Rightarrow> 'a list" where
  "store_result aRows bRows blockDim_x blockDim_y regs t C =
     (let row = blockIdx_y t * blockDim_y + threadIdx_y t;
          col = blockIdx_x t * blockDim_x + threadIdx_x t
      in if row < aRows \<and> col < bRows then C[row * bRows + col := regs t] else C)"

definition matMulCudaKernelOptimized ::
  "'a::semiring_0 list \<Rightarrow> 'a list \<Rightarrow> nat \<Rightarrow> nat \<Rightarrow> nat \<Rightarrow> nat \<Rightarrow> nat \<Rightarrow> 'a tile \<Rightarrow> 'a tile
     \<Rightarrow> nat \<times> nat \<Rightarrow> 'a list \<Rightarrow> 'a list" where
  "matMulCudaKernelOptimized A B aRows aCols bRows blockDim_x blockDim_y As0 Bs0 = (\<lambda>(bx, byy) C.
     (let ts = block_threads blockDim_x blockDim_y bx byy;
          trips = nat ((int aCols - 1) sdiv 32 + 1);
          (As, Bs, regs) = fold (tile_iteration A B aRows aCols bRows blockDim_x blockDim_y ts)
                             [0..<trips] (As0, Bs0, \<lambda>t. 0)
      in fold (store_result aRows bRows blockDim_x blockDim_y regs) ts C))"

text \<open>
  \<^verbatim>\<open>matMulCUDA\<close> launches the tiled kernel on device buffers; \<^verbatim>\<open>bCols\<close> is not passed
  to the kernel.
\<close>

definition matMulCUDA ::
  "'a::semiring_0 list \<Rightarrow> nat \<Rightarrow> nat \<Rightarrow> 'a list \<Rightarrow> nat \<Rightarrow> nat \<Rightarrow> 'a list \<Rightarrow> 'a tile \<Rightarrow> 'a tile
     \<Rightarrow> error + 'a list" where
  "matMulCUDA a aRows aCols b bRows bCols out As0 Bs0 =
     Inr (fold (matMulCudaKernelOptimized a b aRows aCols bRows 32 32 As0 Bs0)
            (grid_blocks (CEIL_DIV bRows 32) (CEIL_DIV aRows 32)) out)"

section \<open>Reduction engine: row sum\<close>






section \<open>Transpose engine\<close>

text \<open>
  \<^verbatim>\<open>transposeKernel\<close> with \<^verbatim>\<open>TILE_DIM = 64\<close>, for blocks of 64 x 16 threads. It reads
  \<^verbatim>\<open>input\<close> and writes \<^verbatim>\<open>output\<close>; the model passes them as separate lists and is
  stated for any element type. Before the barrier each thread copies up to four
  elements of the input into the shared tile; after it each thread copies up to four
  elements of the tile to the output. \<open>n_rows\<close> and \<open>n_cols\<close> are the kernel's
  parameters \<^verbatim>\<open>rows\<close> and \<^verbatim>\<open>cols\<close>.
\<close>

definition transpose_read :: "'a list \<Rightarrow> nat \<Rightarrow> nat \<Rightarrow> thread \<Rightarrow> 'a tile \<Rightarrow> 'a tile" where
  "transpose_read input n_rows n_cols t tile =
     (let xIndex = blockIdx_x t * 64 + threadIdx_x t;
          yIndex = blockIdx_y t * 64 + 4 * threadIdx_y t;
          localX = threadIdx_x t;
          localY = threadIdx_y t
      in if xIndex < n_cols then
           (let tile = (if yIndex + 0 < n_rows
                        then tile((localY * 4 + 0, localX) := input ! (xIndex + (yIndex + 0) * n_cols))
                        else tile);
                tile = (if yIndex + 1 < n_rows
                        then tile((localY * 4 + 1, localX) := input ! (xIndex + (yIndex + 1) * n_cols))
                        else tile);
                tile = (if yIndex + 2 < n_rows
                        then tile((localY * 4 + 2, localX) := input ! (xIndex + (yIndex + 2) * n_cols))
                        else tile);
                tile = (if yIndex + 3 < n_rows
                        then tile((localY * 4 + 3, localX) := input ! (xIndex + (yIndex + 3) * n_cols))
                        else tile)
            in tile)
         else tile)"

definition transpose_write :: "nat \<Rightarrow> nat \<Rightarrow> 'a tile \<Rightarrow> thread \<Rightarrow> 'a list \<Rightarrow> 'a list" where
  "transpose_write n_rows n_cols tile t output =
     (let xIndex = blockIdx_y t * 64 + threadIdx_x t;
          yIndex = blockIdx_x t * 64 + 4 * threadIdx_y t;
          localX = threadIdx_x t;
          localY = threadIdx_y t
      in if xIndex < n_rows then
           (let output = (if yIndex + 0 < n_cols
                          then output[(yIndex + 0) * n_rows + xIndex := tile (localX, localY * 4 + 0)]
                          else output);
                output = (if yIndex + 1 < n_cols
                          then output[(yIndex + 1) * n_rows + xIndex := tile (localX, localY * 4 + 1)]
                          else output);
                output = (if yIndex + 2 < n_cols
                          then output[(yIndex + 2) * n_rows + xIndex := tile (localX, localY * 4 + 2)]
                          else output);
                output = (if yIndex + 3 < n_cols
                          then output[(yIndex + 3) * n_rows + xIndex := tile (localX, localY * 4 + 3)]
                          else output)
            in output)
         else output)"

text \<open>The kernel as run by one block; \<open>tile0\<close> is the uninitialised shared tile.\<close>

definition transposeKernel ::
  "'a list \<Rightarrow> nat \<Rightarrow> nat \<Rightarrow> nat \<Rightarrow> nat \<Rightarrow> 'a tile \<Rightarrow> nat \<times> nat \<Rightarrow> 'a list \<Rightarrow> 'a list" where
  "transposeKernel input n_rows n_cols blockDim_x blockDim_y tile0 = (\<lambda>(bx, byy) output.
     (let ts = block_threads blockDim_x blockDim_y bx byy;
          tile = fold (transpose_read input n_rows n_cols) ts tile0
      in fold (transpose_write n_rows n_cols tile) ts output))"

text \<open>
  \<^verbatim>\<open>transposeCUDA(a, out)\<close> launches the kernel on \<^verbatim>\<open>a.dat\<close> and \<^verbatim>\<open>out.dat\<close> with the
  dimensions of \<^verbatim>\<open>a\<close>, on a grid of \<^verbatim>\<open>CEIL_DIV(a.cols, 64)\<close> by
  \<^verbatim>\<open>CEIL_DIV(a.rows, 64)\<close> blocks of 64 x 16 threads. The kernel is given the contents
  of \<^verbatim>\<open>a.dat\<close> at the launch, which is what it reads when the two buffers are distinct.
\<close>

definition transposeCUDA :: "store \<Rightarrow> Matrix \<Rightarrow> Matrix \<Rightarrow> float tile \<Rightarrow> store" where
  "transposeCUDA s a out tile0 =
     s(dat out := fold (transposeKernel (s (dat a)) (rows a) (cols a) 64 16 tile0)
                    (grid_blocks (CEIL_DIV (cols a) 64) (CEIL_DIV (rows a) 64)) (s (dat out)))"

section \<open>Auxiliary notions for the proofs\<close>

text \<open>
  The guard and the flat index of a thread in a grid of 32 x 32 blocks (the elementwise
  and the matrix-multiply kernels), as a partial function of the thread; a schedule that
  visits every cell below \<open>n\<close> exactly once; and the run of a per-cell update over such a
  schedule. The sequential loops of the CPU reference and the launches of the GPU
  kernels are both instances, so what is proved of a schedule holds for any order of
  the threads.
\<close>

definition cell_of :: "nat \<Rightarrow> nat \<Rightarrow> thread \<Rightarrow> nat option" where
  "cell_of nrows ncols t =
     (let row = blockIdx_y t * 32 + threadIdx_y t;
          col = blockIdx_x t * 32 + threadIdx_x t
      in if row < nrows \<and> col < ncols then Some (row * ncols + col) else None)"

definition covering :: "nat \<Rightarrow> ('t \<Rightarrow> nat option) \<Rightarrow> 't list \<Rightarrow> bool" where
  "covering n idx ts \<longleftrightarrow>
     distinct ts \<and> (\<forall>p<n. \<exists>t\<in>set ts. idx t = Some p) \<and>
     (\<forall>t\<in>set ts. \<forall>t'\<in>set ts. \<forall>p. idx t = Some p \<and> idx t' = Some p \<longrightarrow> t = t') \<and>
     (\<forall>t\<in>set ts. \<forall>p. idx t = Some p \<longrightarrow> p < n)"

definition sweep :: "('t \<Rightarrow> nat option) \<Rightarrow> (nat \<Rightarrow> 's \<Rightarrow> 's) \<Rightarrow> 't list \<Rightarrow> 's \<Rightarrow> 's" where
  "sweep idx upd ts = fold (\<lambda>t s. case idx t of None \<Rightarrow> s | Some i \<Rightarrow> upd i s) ts"

definition unary_step :: "unary_opr \<Rightarrow> nat \<Rightarrow> nat \<Rightarrow> float \<Rightarrow> nat \<Rightarrow> store \<Rightarrow> store" where
  "unary_step opr a aCols k i s = s(a := (s a)[i := opr (s a) i aCols (s a ! i) k])"

definition binary_step :: "binary_opr \<Rightarrow> nat \<Rightarrow> nat \<Rightarrow> nat \<Rightarrow> nat \<Rightarrow> store \<Rightarrow> store" where
  "binary_step opr a aCols b i s = s(a := (s a)[i := opr (s a ! i) (s b) i aCols])"

text \<open>A store holding the given buffers at the addresses 0, 1, 2, ... and nothing elsewhere.\<close>

definition store_of :: "float list list \<Rightarrow> store" where
  "store_of bufs p = (if p < length bufs then bufs ! p else [])"

text \<open>The dot product of row \<open>i\<close> of \<open>A\<close> and row \<open>j\<close> of \<open>B\<close>, both rows of length \<open>n\<close>.\<close>

definition dot :: "'a::semiring_0 list \<Rightarrow> 'a list \<Rightarrow> nat \<Rightarrow> nat \<Rightarrow> nat \<Rightarrow> 'a" where
  "dot A B n i j = (\<Sum>k<n. A ! (i * n + k) * B ! (j * n + k))"

text \<open>A shared tile whose every cell holds zero, for concrete runs.\<close>

definition blank_tile :: "'a::zero tile" where
  "blank_tile p = 0"




text \<open>Copying the cell in row \<open>r\<close> and column \<open>c\<close> to its transposed place, when it exists.\<close>

definition put :: "'a list \<Rightarrow> nat \<Rightarrow> nat \<Rightarrow> nat \<Rightarrow> nat \<Rightarrow> 'a list \<Rightarrow> 'a list" where
  "put input n_rows n_cols r c output =
     (if r < n_rows \<and> c < n_cols then output[c * n_rows + r := input ! (r * n_cols + c)] else output)"

section \<open>Lemmas\<close>

subsection \<open>Folds over threads\<close>

lemma fold_invariant:
  assumes "\<And>t s. t \<in> set ts \<Longrightarrow> I s \<Longrightarrow> I (step t s)" and "I s0"
  shows "I (fold step ts s0)"
  using assms by (induction ts arbitrary: s0) auto

lemma fold_once:
  assumes t0: "t0 \<in> set ts" and d: "distinct ts"
    and pre: "\<And>t s. t \<in> set ts \<Longrightarrow> t \<noteq> t0 \<Longrightarrow> P s \<Longrightarrow> P (step t s)"
    and est: "\<And>s. P s \<Longrightarrow> Q (step t0 s)"
    and post: "\<And>t s. t \<in> set ts \<Longrightarrow> t \<noteq> t0 \<Longrightarrow> Q s \<Longrightarrow> Q (step t s)"
    and P0: "P s0"
  shows "Q (fold step ts s0)"
proof -
  from t0 obtain xs ys where ts: "ts = xs @ t0 # ys"
    by (auto dest: split_list)
  with d have nx: "t0 \<notin> set xs" and ny: "t0 \<notin> set ys" by auto
  have "P (fold step xs s0)"
    by (rule fold_invariant [where I = P]) (use pre nx ts P0 in auto)
  then have "Q (step t0 (fold step xs s0))" by (rule est)
  then have "Q (fold step ys (step t0 (fold step xs s0)))"
    by (intro fold_invariant [where I = Q]) (use post ny ts in auto)
  then show ?thesis by (simp add: ts)
qed

lemma fold_establish:
  assumes t0: "t0 \<in> set ts"
    and inv: "\<And>t s. t \<in> set ts \<Longrightarrow> I s \<Longrightarrow> I (step t s)"
    and est: "\<And>s. I s \<Longrightarrow> Q (step t0 s)"
    and post: "\<And>t s. t \<in> set ts \<Longrightarrow> I s \<Longrightarrow> Q s \<Longrightarrow> Q (step t s)"
    and I0: "I s0"
  shows "Q (fold step ts s0)"
proof -
  from t0 obtain xs ys where ts: "ts = xs @ t0 # ys"
    by (auto dest: split_list)
  have Ix: "I (fold step xs s0)"
    by (rule fold_invariant [where I = I]) (use inv ts I0 in auto)
  then have "Q (step t0 (fold step xs s0))" by (rule est)
  moreover have "I (step t0 (fold step xs s0))" using inv [of t0] Ix ts by simp
  ultimately have "I (fold step ys (step t0 (fold step xs s0))) \<and> Q (fold step ys (step t0 (fold step xs s0)))"
    by (intro fold_invariant [where I = "\<lambda>s. I s \<and> Q s"]) (use inv post ts in auto)
  then show ?thesis by (simp add: ts)
qed

lemma distinct_concat_map:
  assumes "distinct xs"
    and "\<And>x. x \<in> set xs \<Longrightarrow> distinct (f x)"
    and "\<And>x y. x \<in> set xs \<Longrightarrow> y \<in> set xs \<Longrightarrow> x \<noteq> y \<Longrightarrow> set (f x) \<inter> set (f y) = {}"
  shows "distinct (concat (map f xs))"
  using assms by (induction xs) fastforce+

lemma set_block_threads:
  "set (block_threads bdx bdy bx byy) =
     {t. blockIdx_x t = bx \<and> blockIdx_y t = byy \<and> threadIdx_x t < bdx \<and> threadIdx_y t < bdy}"
proof (intro set_eqI iffI)
  fix t assume "t \<in> set (block_threads bdx bdy bx byy)"
  then show "t \<in> {t. blockIdx_x t = bx \<and> blockIdx_y t = byy \<and> threadIdx_x t < bdx \<and> threadIdx_y t < bdy}"
    by (auto simp: block_threads_def)
next
  fix t assume "t \<in> {t. blockIdx_x t = bx \<and> blockIdx_y t = byy \<and> threadIdx_x t < bdx \<and> threadIdx_y t < bdy}"
  then show "t \<in> set (block_threads bdx bdy bx byy)"
    by (cases t) (force simp: block_threads_def)
qed

lemma set_grid_blocks: "set (grid_blocks gx gy) = {(bx, byy). bx < gx \<and> byy < gy}"
  by (auto simp: grid_blocks_def)

lemma set_grid_threads:
  "set (grid_threads gx gy bdx bdy) =
     {t. blockIdx_x t < gx \<and> blockIdx_y t < gy \<and> threadIdx_x t < bdx \<and> threadIdx_y t < bdy}"
  by (auto simp: grid_threads_def set_block_threads set_grid_blocks)

lemma distinct_block_threads: "distinct (block_threads bdx bdy bx byy)"
  unfolding block_threads_def
  by (rule distinct_concat_map) (auto simp: distinct_map inj_on_def)

lemma distinct_grid_blocks: "distinct (grid_blocks gx gy)"
  unfolding grid_blocks_def
  by (rule distinct_concat_map) (auto simp: distinct_map inj_on_def)

lemma distinct_grid_threads: "distinct (grid_threads gx gy bdx bdy)"
  unfolding grid_threads_def
  by (rule distinct_concat_map)
     (auto simp: distinct_block_threads distinct_grid_blocks set_block_threads)

subsection \<open>Schedules that visit every cell once\<close>

lemma covering_upt: "covering n Some [0..<n]"
  by (auto simp: covering_def)

lemma split_cell:
  fixes r c m :: nat
  assumes "r * m + c = r' * m + c'" "c < m" "c' < m"
  shows "r = r' \<and> c = c'"
proof -
  from assms have m: "m \<noteq> 0" by auto
  have "(r * m + c) div m = r + c div m" "(r' * m + c') div m = r' + c' div m"
    by (rule div_mult_self3 [OF m])+
  with assms have "r = r'" by simp
  with assms(1) show ?thesis by simp
qed

lemma covering_grid:
  "covering (nrows * ncols) (cell_of nrows ncols)
     (grid_threads ((ncols + 32 - 1) div 32) ((nrows + 32 - 1) div 32) 32 32)"
  unfolding covering_def
proof (intro conjI allI ballI impI)
  show "distinct (grid_threads ((ncols + 32 - 1) div 32) ((nrows + 32 - 1) div 32) 32 32)"
    by (rule distinct_grid_threads)
next
  fix p assume p: "p < nrows * ncols"
  then have m: "0 < ncols" by (cases ncols) auto
  define row col where "row = p div ncols" and "col = p mod ncols"
  have row: "row < nrows" unfolding row_def using p by (simp add: less_mult_imp_div_less)
  have col: "col < ncols" unfolding col_def using m by simp
  have pe: "row * ncols + col = p" unfolding row_def col_def by simp
  let ?t = "Thread (col div 32) (row div 32) (col mod 32) (row mod 32)"
  have "?t \<in> set (grid_threads ((ncols + 32 - 1) div 32) ((nrows + 32 - 1) div 32) 32 32)"
  proof -
    have "col div 32 < (ncols + 31) div 32" "row div 32 < (nrows + 31) div 32"
      using row col by arith+
    then show ?thesis by (simp add: set_grid_threads add.commute)
  qed
  moreover have "cell_of nrows ncols ?t = Some p"
    using row col pe by (simp add: cell_of_def)
  ultimately show "\<exists>t\<in>set (grid_threads ((ncols + 32 - 1) div 32) ((nrows + 32 - 1) div 32) 32 32).
      cell_of nrows ncols t = Some p" by blast
next
  fix t t' p
  assume t: "t \<in> set (grid_threads ((ncols + 32 - 1) div 32) ((nrows + 32 - 1) div 32) 32 32)"
    and t': "t' \<in> set (grid_threads ((ncols + 32 - 1) div 32) ((nrows + 32 - 1) div 32) 32 32)"
    and e: "cell_of nrows ncols t = Some p \<and> cell_of nrows ncols t' = Some p"
  obtain bx byy tx ty where T: "t = Thread bx byy tx ty" by (cases t)
  obtain bx' byy' tx' ty' where T': "t' = Thread bx' byy' tx' ty'" by (cases t')
  from t t' have b: "tx < 32" "ty < 32" "tx' < 32" "ty' < 32"
    by (simp_all add: set_grid_threads T T')
  from e have c: "bx * 32 + tx < ncols" "bx' * 32 + tx' < ncols"
    and eq: "(byy * 32 + ty) * ncols + (bx * 32 + tx) = (byy' * 32 + ty') * ncols + (bx' * 32 + tx')"
    by (auto simp: cell_of_def T T' Let_def split: if_splits)
  from split_cell [OF eq c] have y: "byy * 32 + ty = byy' * 32 + ty'" and x: "bx * 32 + tx = bx' * 32 + tx'"
    by simp_all
  from split_cell [OF y b(2) b(4)] split_cell [OF x b(1) b(3)]
  show "t = t'" by (simp add: T T')
next
  fix t p assume "cell_of nrows ncols t = Some p"
  then obtain row col where "row < nrows" "col < ncols" "p = row * ncols + col"
    by (auto simp: cell_of_def Let_def split: if_splits)
  then have 1: "p < Suc row * ncols" and 2: "Suc row \<le> nrows" by simp_all
  from 2 have "Suc row * ncols \<le> nrows * ncols" by (rule mult_le_mono1)
  with 1 show "p < nrows * ncols" by linarith
qed

lemma sweep_cell:
  assumes cov: "covering n idx ts" and p: "p < n"
    and pre: "\<And>i s. i < n \<Longrightarrow> i \<noteq> p \<Longrightarrow> P s \<Longrightarrow> P (upd i s)"
    and est: "\<And>s. P s \<Longrightarrow> Q (upd p s)"
    and post: "\<And>i s. i < n \<Longrightarrow> i \<noteq> p \<Longrightarrow> Q s \<Longrightarrow> Q (upd i s)"
    and P0: "P s0"
  shows "Q (sweep idx upd ts s0)"
proof -
  from cov p obtain t0 where t0: "t0 \<in> set ts" "idx t0 = Some p"
    by (auto simp: covering_def)
  have other: "idx t = None \<or> (\<exists>i. idx t = Some i \<and> i < n \<and> i \<noteq> p)" if "t \<in> set ts" "t \<noteq> t0" for t
    using cov t0 that unfolding covering_def by (cases "idx t") auto
  show ?thesis unfolding sweep_def
  proof (rule fold_once [where P = P and Q = Q and ?t0.0 = t0])
    show "t0 \<in> set ts" by fact
    show "distinct ts" using cov by (simp add: covering_def)
    show "P s0" by fact
    show "Q (case idx t0 of None \<Rightarrow> s | Some i \<Rightarrow> upd i s)" if "P s" for s
      using est [OF that] t0 by simp
    show "P (case idx t of None \<Rightarrow> s | Some i \<Rightarrow> upd i s)" if "t \<in> set ts" "t \<noteq> t0" "P s" for t s
      using other [OF that(1,2)] pre that(3) by auto
    show "Q (case idx t of None \<Rightarrow> s | Some i \<Rightarrow> upd i s)" if "t \<in> set ts" "t \<noteq> t0" "Q s" for t s
      using other [OF that(1,2)] post that(3) by auto
  qed
qed

lemma sweep_frame:
  assumes cov: "covering n idx ts"
    and inv: "\<And>i s. i < n \<Longrightarrow> I s \<Longrightarrow> I (upd i s)"
    and I0: "I s0"
  shows "I (sweep idx upd ts s0)"
  unfolding sweep_def
proof (rule fold_invariant [where I = I])
  show "I s0" by fact
  show "I (case idx t of None \<Rightarrow> s | Some i \<Rightarrow> upd i s)" if "t \<in> set ts" "I s" for t s
    using cov that inv unfolding covering_def by (cases "idx t") auto
qed

subsection \<open>Elementwise operators\<close>

lemma UNARY_CUDA_sweep:
  "UNARY_CUDA opr s m k =
     (sweep (cell_of (rows m) (cols m)) (unary_step opr (dat m) (cols m) k)
        (grid_threads ((cols m + 32 - 1) div 32) ((rows m + 32 - 1) div 32) 32 32) s, m)"
proof -
  have "UNARY_Kernel_MTP opr (dat m) (rows m) (cols m) (dat m) k 32 32 =
        (\<lambda>t s. case cell_of (rows m) (cols m) t of None \<Rightarrow> s
                | Some i \<Rightarrow> unary_step opr (dat m) (cols m) k i s)"
    by (intro ext) (simp add: UNARY_Kernel_MTP_def cell_of_def unary_step_def Let_def)
  then show ?thesis by (simp add: UNARY_CUDA_def sweep_def Let_def)
qed

lemma UNARY_sweep:
  "UNARY opr s a k =
     (sweep Some (unary_step opr (dat a) (cols a) k) [0..<rows a * cols a] s, a)"
  by (simp add: UNARY_def sweep_def unary_step_def Let_def)

lemma BINARY_CUDA_sweep:
  "BINARY_CUDA opr s a b =
     (sweep (cell_of (rows a) (cols a)) (binary_step opr (dat a) (cols a) (dat b))
        (grid_threads ((cols a + 32 - 1) div 32) ((rows a + 32 - 1) div 32) 32 32) s, a)"
proof -
  have "BINARY_Kernel_MTP opr (dat a) (rows a) (cols a) (dat b) (dat a) 32 32 =
        (\<lambda>t s. case cell_of (rows a) (cols a) t of None \<Rightarrow> s
                | Some i \<Rightarrow> binary_step opr (dat a) (cols a) (dat b) i s)"
    by (intro ext) (simp add: BINARY_Kernel_MTP_def cell_of_def binary_step_def Let_def)
  then show ?thesis by (simp add: BINARY_CUDA_def sweep_def Let_def)
qed

lemma BINARY_sweep:
  "BINARY opr s a b =
     (sweep Some (binary_step opr (dat a) (cols a) (dat b)) [0..<rows a * cols a] s, a)"
  by (simp add: BINARY_def sweep_def binary_step_def)

lemma sweep_inv:
  assumes "\<And>i s. I s \<Longrightarrow> I (upd i s)" and "I s0"
  shows "I (sweep idx upd ts s0)"
  unfolding sweep_def
  by (rule fold_invariant [where I = I]) (auto simp: assms split: option.splits)

lemma unary_sweep_frame:
  "sweep idx (unary_step opr a c k) ts s = s(a := sweep idx (unary_step opr a c k) ts s a) \<and>
   length (sweep idx (unary_step opr a c k) ts s a) = length (s a)"
proof -
  have "(\<forall>p. p \<noteq> a \<longrightarrow> sweep idx (unary_step opr a c k) ts s p = s p) \<and>
        length (sweep idx (unary_step opr a c k) ts s a) = length (s a)"
    by (rule sweep_inv [where I = "\<lambda>s'. (\<forall>p. p \<noteq> a \<longrightarrow> s' p = s p) \<and> length (s' a) = length (s a)"])
       (simp_all add: unary_step_def)
  then show ?thesis by (simp add: fun_eq_iff)
qed

lemma binary_sweep_frame:
  "sweep idx (binary_step opr a c b) ts s = s(a := sweep idx (binary_step opr a c b) ts s a) \<and>
   length (sweep idx (binary_step opr a c b) ts s a) = length (s a)"
proof -
  have "(\<forall>p. p \<noteq> a \<longrightarrow> sweep idx (binary_step opr a c b) ts s p = s p) \<and>
        length (sweep idx (binary_step opr a c b) ts s a) = length (s a)"
    by (rule sweep_inv [where I = "\<lambda>s'. (\<forall>p. p \<noteq> a \<longrightarrow> s' p = s p) \<and> length (s' a) = length (s a)"])
       (simp_all add: binary_step_def)
  then show ?thesis by (simp add: fun_eq_iff)
qed

lemma cell_bound:
  fixes r c nr nc :: nat
  assumes "r < nr" "c < nc"
  shows "r * nc + c < nr * nc"
proof -
  have "r * nc + c < Suc r * nc" using assms by simp
  moreover have "Suc r * nc \<le> nr * nc" using assms by (intro mult_le_mono1) simp
  ultimately show ?thesis by linarith
qed

lemma broadcast_sweep_cell:
  assumes cov: "covering (nr * nc) idx ts" and len: "length (s a) = nr * nc"
    and r: "r < nr" and c: "c < nc"
  shows "sweep idx (unary_step opr_broadcast a nc k) ts s a ! (r * nc + c) = s a ! (r * nc)"
proof -
  define P where "P s' \<longleftrightarrow> length (s' a) = nr * nc \<and> s' a ! (r * nc) = s a ! (r * nc)" for s'
  define Q where "Q s' \<longleftrightarrow> P s' \<and> s' a ! (r * nc + c) = s a ! (r * nc)" for s'
  have nc: "nc \<noteq> 0" using c by auto
  have rb: "r * nc < nr * nc" using r nc by simp
  have pb: "r * nc + c < nr * nc" using r c by (rule cell_bound)
  have d0: "(r * nc) div nc = r" using nc by simp
  have d1: "(r * nc + c) div nc = r" using c nc by simp
  have keepP: "P (unary_step opr_broadcast a nc k i s')" if "P s'" for i s'
    using that rb d0 unfolding P_def
    by (cases "i = r * nc") (simp_all add: unary_step_def opr_broadcast_def)
  have "Q (sweep idx (unary_step opr_broadcast a nc k) ts s)"
  proof (rule sweep_cell [OF cov pb, where P = P and Q = Q])
    show "P s" using len by (simp add: P_def)
    show "P (unary_step opr_broadcast a nc k i s')" if "P s'" for i s'
      using that by (rule keepP)
    show "Q (unary_step opr_broadcast a nc k (r * nc + c) s')" if "P s'" for s'
      using keepP [OF that, of "r * nc + c"] that pb d1 unfolding Q_def P_def
      by (simp add: unary_step_def opr_broadcast_def)
    show "Q (unary_step opr_broadcast a nc k i s')" if "i \<noteq> r * nc + c" "Q s'" for i s'
      using keepP [of s' i] that unfolding Q_def by (simp add: unary_step_def)
  qed
  then show ?thesis by (simp add: Q_def)
qed

lemma broadcast_sweep_idem:
  assumes cov: "covering (nr * nc) idx ts" and len: "length (s a) = nr * nc"
  shows "sweep idx (unary_step opr_broadcast a nc k') ts
           (sweep idx (unary_step opr_broadcast a nc k) ts s)
         = sweep idx (unary_step opr_broadcast a nc k) ts s"
proof -
  define s1 where "s1 = sweep idx (unary_step opr_broadcast a nc k) ts s"
  define s2 where "s2 = sweep idx (unary_step opr_broadcast a nc k') ts s1"
  have f1: "s1 = s(a := s1 a)" and l1: "length (s1 a) = nr * nc"
    using unary_sweep_frame [of idx opr_broadcast a nc k ts s] len by (simp_all add: s1_def)
  have f2: "s2 = s1(a := s2 a)" and l2: "length (s2 a) = nr * nc"
    using unary_sweep_frame [of idx opr_broadcast a nc k' ts s1] l1 by (simp_all add: s2_def)
  have "s2 a = s1 a"
  proof (rule nth_equalityI)
    show "length (s2 a) = length (s1 a)" using l1 l2 by simp
    fix p assume "p < length (s2 a)"
    then have p: "p < nr * nc" using l2 by simp
    then have nc: "0 < nc" by (cases nc) auto
    define r c where "r = p div nc" and "c = p mod nc"
    have r: "r < nr" unfolding r_def using p by (simp add: less_mult_imp_div_less)
    have c: "c < nc" unfolding c_def using nc by simp
    have pe: "p = r * nc + c" unfolding r_def c_def by simp
    have "s2 a ! p = s1 a ! (r * nc)"
      unfolding s2_def pe by (rule broadcast_sweep_cell [where s = s1 and a = a, OF cov l1 r c])
    also have "\<dots> = s a ! (r * nc)"
      using broadcast_sweep_cell [where s = s and a = a and c = 0, OF cov len r nc, of k]
      by (simp add: s1_def)
    also have "\<dots> = s1 a ! p"
      unfolding s1_def pe
      by (rule broadcast_sweep_cell [where s = s and a = a, OF cov len r c, symmetric])
    finally show "s2 a ! p = s1 a ! p" .
  qed
  with f2 have "s2 = s1" by (metis fun_upd_triv)
  then show ?thesis by (simp add: s1_def s2_def)
qed

lemma store_of_simps [simp]:
  "store_of (b0 # bs) 0 = b0"
  "store_of (b0 # b1 # bs) (Suc 0) = b1"
  "store_of (b0 # b1 # b2 # bs) 2 = b2"
  by (simp_all add: store_of_def)

lemma binary_sweep_cell:
  assumes cov: "covering n idx ts" and len: "length (s a) = n" and ne: "a \<noteq> b" and p: "p < n"
  shows "sweep idx (binary_step opr a nc b) ts s a ! p = opr (s a ! p) (s b) p nc"
proof -
  define P where "P s' \<longleftrightarrow> length (s' a) = n \<and> s' b = s b \<and> s' a ! p = s a ! p" for s'
  define Q where "Q s' \<longleftrightarrow> length (s' a) = n \<and> s' b = s b \<and> s' a ! p = opr (s a ! p) (s b) p nc" for s'
  have "Q (sweep idx (binary_step opr a nc b) ts s)"
  proof (rule sweep_cell [OF cov p, where P = P and Q = Q])
    show "P s" using len by (simp add: P_def)
    show "P (binary_step opr a nc b i s')" if "i \<noteq> p" "P s'" for i s'
      using that ne by (simp add: P_def binary_step_def)
    show "Q (binary_step opr a nc b p s')" if "P s'" for s'
      using that ne p by (simp add: P_def Q_def binary_step_def)
    show "Q (binary_step opr a nc b i s')" if "i \<noteq> p" "Q s'" for i s'
      using that ne by (simp add: Q_def binary_step_def)
  qed
  then show ?thesis by (simp add: Q_def)
qed

lemma pointwise_sweep_cell:
  assumes cov: "covering n idx ts" and len: "length (s a) = n" and p: "p < n"
    and ind: "\<And>xs x. opr xs p nc x k = f x"
  shows "sweep idx (unary_step opr a nc k) ts s a ! p = f (s a ! p)"
proof -
  define P where "P s' \<longleftrightarrow> length (s' a) = n \<and> s' a ! p = s a ! p" for s'
  define Q where "Q s' \<longleftrightarrow> length (s' a) = n \<and> s' a ! p = f (s a ! p)" for s'
  have "Q (sweep idx (unary_step opr a nc k) ts s)"
  proof (rule sweep_cell [OF cov p, where P = P and Q = Q])
    show "P s" using len by (simp add: P_def)
    show "P (unary_step opr a nc k i s')" if "i \<noteq> p" "P s'" for i s'
      using that by (simp add: P_def unary_step_def)
    show "Q (unary_step opr a nc k p s')" if "P s'" for s'
      using that p by (simp add: P_def Q_def unary_step_def ind)
    show "Q (unary_step opr a nc k i s')" if "i \<noteq> p" "Q s'" for i s'
      using that by (simp add: Q_def unary_step_def)
  qed
  then show ?thesis by (simp add: Q_def)
qed

lemma tile_sweep_cell:
  assumes cov: "covering (nr * nc) idx ts" and len: "length (s a) = nr * nc" and ne: "a \<noteq> b"
    and r: "r < nr" and c: "c < nc"
    and tile: "\<And>x bs i. opr x bs i nc = g x (bs ! (i mod nc))"
  shows "sweep idx (binary_step opr a nc b) ts s a ! (r * nc + c) = g (s a ! (r * nc + c)) (s b ! c)"
proof -
  have "r * nc + c < nr * nc" using r c by (rule cell_bound)
  from binary_sweep_cell [where s = s and a = a, OF cov len ne this, of opr nc]
  show ?thesis using c by (simp add: tile)
qed

lemma tile_sweep_depends:
  assumes cov: "covering (nr * nc) idx ts" and len: "length (s a) = nr * nc" and ne: "a \<noteq> b"
    and same_a: "s' a = s a" and same_b: "take nc (s' b) = take nc (s b)"
    and tile: "\<And>x bs i. opr x bs i nc = g x (bs ! (i mod nc))"
  shows "sweep idx (binary_step opr a nc b) ts s' a = sweep idx (binary_step opr a nc b) ts s a"
proof (rule nth_equalityI)
  have len': "length (s' a) = nr * nc" using len same_a by simp
  show l: "length (sweep idx (binary_step opr a nc b) ts s' a) =
        length (sweep idx (binary_step opr a nc b) ts s a)"
    using binary_sweep_frame [of idx opr a nc b ts s] binary_sweep_frame [of idx opr a nc b ts s']
      same_a by simp
  fix p assume "p < length (sweep idx (binary_step opr a nc b) ts s' a)"
  then have p: "p < nr * nc"
    using binary_sweep_frame [of idx opr a nc b ts s'] len' by simp
  then have nc: "0 < nc" by (cases nc) auto
  have "s' b ! (p mod nc) = take nc (s' b) ! (p mod nc)" using nc by simp
  also have "\<dots> = s b ! (p mod nc)" using nc by (simp add: same_b)
  finally have b: "s' b ! (p mod nc) = s b ! (p mod nc)" .
  show "sweep idx (binary_step opr a nc b) ts s' a ! p = sweep idx (binary_step opr a nc b) ts s a ! p"
    using binary_sweep_cell [where s = s and a = a, OF cov len ne p, of opr nc]
      binary_sweep_cell [where s = s' and a = a, OF cov len' ne p, of opr nc]
    by (simp add: tile b same_a)
qed

subsection \<open>Binary32 rounding\<close>

lemma round_half_even_of_int: "round_half_even (of_int n) = n"
  by (simp add: round_half_even_def)

lemma round_half_even_ge:
  assumes "of_int n \<le> y"
  shows "n \<le> round_half_even y"
proof -
  have "n \<le> \<lfloor>y\<rfloor>" using assms by (simp add: le_floor_iff)
  then show ?thesis by (simp add: round_half_even_def)
qed

lemma round_half_even_upper: "of_int (round_half_even y) \<le> y + 1 / 2"
  by (auto simp add: round_half_even_def) linarith+

lemma float_ulp_pos: "0 < float_ulp x"
  by (simp add: float_ulp_def)

lemma floor_log2_le:
  assumes "0 < x"
  shows "2 powr of_int \<lfloor>log 2 x\<rfloor> \<le> x"
proof -
  have "2 powr of_int \<lfloor>log 2 x\<rfloor> \<le> 2 powr log 2 x"
    by (rule powr_mono) simp_all
  then show ?thesis using assms by simp
qed

lemma floor_log2_eq:
  assumes "2 powr of_int e \<le> x" and "x < 2 powr (of_int e + 1)"
  shows "\<lfloor>log 2 x\<rfloor> = e"
proof -
  have "0 < (2::real) powr of_int e" by simp
  then have x: "0 < x" using assms(1) by linarith
  have "of_int e \<le> log 2 x" using assms(1) x by (simp add: powr_le_iff)
  moreover have "log 2 x < of_int e + 1" using assms(2) x by (simp add: less_powr_iff)
  ultimately show ?thesis by (simp add: floor_eq_iff)
qed

lemma float_ulp_small:
  assumes x: "0 < x" and b: "x < 2 ^ 24"
  shows "\<exists>n::nat. float_ulp x = 1 / 2 ^ n"
proof -
  have "log 2 x < 24"
    using x b by (simp add: log_less_iff)
  then have "\<lfloor>log 2 x\<rfloor> \<le> 23" by (simp add: floor_le_iff)
  then have e: "float_exponent x \<le> 23" using x by (simp add: float_exponent_def)
  define n where "n = nat (23 - float_exponent x)"
  have "of_int (float_exponent x) - 23 = - real n" using e by (simp add: n_def)
  then have "float_ulp x = 2 powr (- real n)" by (simp add: float_ulp_def)
  also have "\<dots> = 1 / 2 ^ n" by (simp add: powr_minus powr_realpow divide_inverse)
  finally show ?thesis by blast
qed

lemma round32_no_crossing:
  assumes x: "0 < x" and b: "x < 2 ^ 24" and c: "of_int c \<le> x"
  shows "of_int c \<le> round32 x"
proof -
  obtain n :: nat where u: "float_ulp x = 1 / 2 ^ n"
    using float_ulp_small [OF x b] by blast
  have "of_int (c * 2 ^ n) \<le> x * 2 ^ n" using c by simp
  then have "c * 2 ^ n \<le> round_half_even (x * 2 ^ n)" by (rule round_half_even_ge)
  then have "real_of_int (c * 2 ^ n) \<le> of_int (round_half_even (x * 2 ^ n))"
    by (simp only: of_int_le_iff)
  then have "of_int c * 2 ^ n \<le> real_of_int (round_half_even (x * 2 ^ n))" by simp
  then have "of_int c \<le> real_of_int (round_half_even (x * 2 ^ n)) / 2 ^ n"
    by (simp add: pos_le_divide_eq)
  then show ?thesis using x by (simp add: round32_def u)
qed

lemma round32_of_int:
  assumes n: "0 \<le> n" and b: "n < 2 ^ 24"
  shows "round32 (of_int n) = of_int n"
proof (cases "n = 0")
  case True
  then show ?thesis by (simp add: round32_def)
next
  case False
  then have x: "0 < real_of_int n" using n by simp
  have bx: "real_of_int n < 2 ^ 24" using b by (metis of_int_less_iff of_int_numeral of_int_power)
  obtain j :: nat where u: "float_ulp (of_int n) = 1 / 2 ^ j"
    using float_ulp_small [OF x bx] by blast
  have "real_of_int n * 2 ^ j = of_int (n * 2 ^ j)" by simp
  then have "round_half_even (real_of_int n * 2 ^ j) = n * 2 ^ j"
    by (simp only: round_half_even_of_int)
  then show ?thesis using False by (simp add: round32_def u)
qed

lemma round32_upper:
  assumes x: "0 < x" and lo: "1 / 2 ^ 126 \<le> x"
  shows "round32 x \<le> x + x / 2 ^ 24"
proof -
  have "(2::real) powr (- 126) = 1 / 2 ^ 126"
    by (simp add: powr_minus_divide)
  then have "(2::real) powr (- 126) \<le> x" using lo by (simp only:)
  then have "- 126 \<le> log 2 x" using x by (simp only: powr_le_iff) 
  then have "- 126 \<le> \<lfloor>log 2 x\<rfloor>" by (simp add: le_floor_iff)
  then have e: "float_exponent x = \<lfloor>log 2 x\<rfloor>" using x by (simp add: float_exponent_def)
  have "float_ulp x = 2 powr of_int \<lfloor>log 2 x\<rfloor> * 2 powr (- 23)"
    unfolding float_ulp_def e by (simp only: powr_add [symmetric]) simp
  also have "\<dots> \<le> x * 2 powr (- 23)"
    using floor_log2_le [OF x] by (simp add: mult_right_mono)
  also have "(2::real) powr (- 23) = 1 / 2 ^ 23"
    by (simp add: powr_minus_divide)
  finally have u: "float_ulp x \<le> x / 2 ^ 23" by simp
  have up: "0 < float_ulp x" by (rule float_ulp_pos)
  have "of_int (round_half_even (x / float_ulp x)) \<le> x / float_ulp x + 1 / 2"
    by (rule round_half_even_upper)
  then have "of_int (round_half_even (x / float_ulp x)) * float_ulp x
               \<le> (x / float_ulp x + 1 / 2) * float_ulp x"
    using up by (simp only: mult_le_cancel_right_pos)
  also have "\<dots> = x + float_ulp x / 2" using up by (simp add: field_simps)
  also have "\<dots> \<le> x + x / 2 ^ 24" using u by simp
  finally show ?thesis using x by (simp add: round32_def)
qed

subsection \<open>The mask of tril\<close>

lemma smod_of_nat: "int i smod int n = int (i mod n)"
  by (simp add: smod_int_alt_def zmod_int sgn_if)

lemma int_of_float_of_nat: "int_of_float (real n) = int n"
  by (simp add: int_of_float_def)

lemma float_of_int_exact:
  assumes "n < 2 ^ 24"
  shows "float_of_int (int n) = real n"
proof -
  have "int n < 2 ^ 24" using assms by (metis of_nat_less_iff of_nat_numeral of_nat_power)
  then have "round32 (of_int (int n)) = of_int (int n)" by (rule round32_of_int [rotated]) simp
  then show ?thesis by (simp add: float_of_int_def)
qed

lemma tril_mask_square:
  assumes c: "c < nc" and nc: "nc \<le> 2 ^ 24" and b: "r * nc + c < 2 ^ 24"
  shows "float_div (float_of_int (int (r * nc + c))) (real nc)
           < float_of_int (int (r * nc + c) smod int_of_float (real nc))
         \<longleftrightarrow> r < c"
proof -
  define x where "x = real (r * nc + c) / real nc"
  have n0: "0 < real nc" using c by simp
  have cb: "c < 2 ^ 24" using b by (rule le_less_trans [rotated]) simp
  have "int (r * nc + c) smod int nc = int ((r * nc + c) mod nc)"
    by (rule smod_of_nat)
  then have m: "int (r * nc + c) smod int_of_float (real nc) = int c"
    using c by (simp only: int_of_float_of_nat) simp
  have lhs: "float_div (float_of_int (int (r * nc + c))) (real nc) = round32 x"
    by (simp only: float_of_int_exact [OF b] float_div_def x_def)
  have rhs: "float_of_int (int (r * nc + c) smod int_of_float (real nc)) = real c"
    by (simp only: m float_of_int_exact [OF cb])
  have d: "x = real r + real c / real nc"
    using n0 by (simp add: x_def field_simps)
  have f: "0 \<le> real c / real nc" using n0 by simp
  have "round32 x < real c \<longleftrightarrow> r < c"
  proof
    assume less: "round32 x < real c"
    show "r < c"
    proof (rule ccontr)
      assume "\<not> r < c"
      then have "real c \<le> real r" by simp
      with f d have "real c \<le> x" by linarith
      then have cx: "real_of_int (int c) \<le> x" by simp
      have "real c \<le> round32 x"
      proof (cases "x = 0")
        case True
        with cx show ?thesis by (simp add: round32_def)
      next
        case False
        have "0 \<le> x" using d f by simp
        with False have x0: "0 < x" by simp
        have "1 \<le> nc" using c by simp
        then have "real 1 \<le> real nc" by (simp only: of_nat_le_iff)
        then have "real (r * nc + c) * 1 \<le> real (r * nc + c) * real nc"
          by (intro mult_left_mono) simp_all
        then have "x \<le> real (r * nc + c)"
          unfolding x_def using n0 by (simp only: pos_divide_le_eq mult_1_right)
        also have "\<dots> < 2 ^ 24" using b by (metis of_nat_less_iff of_nat_numeral of_nat_power)
        finally have "x < 2 ^ 24" .
        from round32_no_crossing [OF x0 this cx] show ?thesis by simp
      qed
      with less show False by simp
    qed
  next
    assume rc: "r < c"
    then have r1: "real r + 1 \<le> real c" by (metis Suc_leI of_nat_Suc of_nat_le_iff add.commute)
    have "real c + 1 \<le> real nc" using c by (metis Suc_leI of_nat_Suc of_nat_le_iff add.commute)
    then have "real c / real nc \<le> (real nc - 1) / real nc"
      using n0 by (simp add: divide_right_mono)
    also have "\<dots> = 1 - 1 / real nc" using n0 by (simp add: field_simps)
    finally have xu: "x \<le> real c - 1 / real nc" using d r1 by simp
    have i1: "1 \<le> real (r * nc + c)" using rc by (simp add: Suc_le_eq [symmetric] del: of_nat_add of_nat_mult)
    have ib: "real (r * nc + c) < 2 ^ 24"
      using b by (metis of_nat_less_iff of_nat_numeral of_nat_power)
    have nb: "real nc \<le> 2 ^ 24"
      using nc by (metis of_nat_le_iff of_nat_numeral of_nat_power)
    have "1 / 2 ^ 24 \<le> 1 / real nc" using n0 nb by (simp add: frac_le)
    also have "\<dots> \<le> x" using i1 n0 by (simp add: x_def divide_right_mono)
    finally have lo24: "1 / 2 ^ 24 \<le> x" .
    have "(1::real) / 2 ^ 126 \<le> 1 / 2 ^ 24" by simp
    then have lo: "1 / 2 ^ 126 \<le> x" using lo24 by (rule order_trans)
    have x0: "0 < x" using lo24 by (rule less_le_trans [rotated]) simp
    define ri where "ri = real (r * nc + c)"
    have "ri / 2 ^ 24 < 1" using ib by (simp add: ri_def del: of_nat_add of_nat_mult)
    then have "(ri / 2 ^ 24) / real nc < 1 / real nc" using n0 by (rule divide_strict_right_mono)
    moreover have "x / 2 ^ 24 = (ri / 2 ^ 24) / real nc" by (simp add: x_def ri_def)
    ultimately have e: "x / 2 ^ 24 < 1 / real nc" by simp
    have "round32 x \<le> x + x / 2 ^ 24" using x0 lo by (rule round32_upper)
    also have "\<dots> < real c" using xu e by linarith
    finally show "round32 x < real c" .
  qed
  then show ?thesis by (simp only: lhs rhs)
qed

lemma round32_16781311: "round32 16781311 = 16781312"
proof -
  have "\<lfloor>log 2 (16781311::real)\<rfloor> = 24"
    by (rule floor_log2_eq) simp_all
  then have "float_ulp 16781311 = 2"
    by (simp add: float_ulp_def float_exponent_def)
  moreover have "round_half_even (16781311 / 2) = 8390656"
    by (simp add: round_half_even_def)
  ultimately show ?thesis by (simp add: round32_def)
qed

lemma tril_mask_width_4097:
  "\<not> float_div (float_of_int (int (4095 * 4097 + 4096))) (real 4097)
       < float_of_int (int (4095 * 4097 + 4096) smod int_of_float (real 4097))"
proof -
  have l: "float_of_int (int (4095 * 4097 + 4096)) = 16781312"
    using round32_16781311 by (simp add: float_of_int_def)
  have "round32 (of_int 4096) = of_int 4096" by (rule round32_of_int) simp_all
  then have q: "float_div 16781312 (real 4097) = 4096" by (simp add: float_div_def)
  have "int (4095 * 4097 + 4096) smod int_of_float (real 4097) = int ((4095 * 4097 + 4096) mod 4097)"
    by (simp only: int_of_float_of_nat smod_of_nat)
  also have "\<dots> = 4096" by simp
  finally have r: "float_of_int (int (4095 * 4097 + 4096) smod int_of_float (real 4097)) = 4096"
    using float_of_int_exact [of 4096] by simp
  show ?thesis by (simp only: l q r)
qed

lemma tril_sweep_cell:
  assumes cov: "covering n idx ts" and len: "length (s a) = n" and p: "p < n"
  shows "sweep idx (unary_step (opr_tril fexp) a nc k) ts s a ! p =
           (if float_div (float_of_int (int p)) k < float_of_int (int p smod int_of_float k) then 0
            else fexp (float_div (s a ! p) 8))"
  by (rule pointwise_sweep_cell [where s = s and a = a, OF cov len p]) (simp add: opr_tril_def)

subsection \<open>Matrix multiply\<close>

lemma fold_add_sum:
  fixes a :: "'a::comm_monoid_add"
  shows "fold (\<lambda>k acc. acc + f k) [0..<n] a = a + (\<Sum>k<n. f k)"
  by (induction n) (simp_all add: add.assoc)

lemma sweep_const_cell:
  assumes cov: "covering n idx ts" and len: "length C = n" and p: "p < n"
  shows "sweep idx (\<lambda>p C. C[p := G p]) ts C ! p = G p"
proof -
  define P where "P C' \<longleftrightarrow> length C' = n" for C' :: "'b list"
  define Q where "Q C' \<longleftrightarrow> length C' = n \<and> C' ! p = G p" for C'
  have "Q (sweep idx (\<lambda>p C. C[p := G p]) ts C)"
    by (rule sweep_cell [OF cov p, where P = P and Q = Q])
       (use len p in \<open>simp_all add: P_def Q_def\<close>)
  then show ?thesis by (simp add: Q_def)
qed

lemma sweep_const_length: "length (sweep idx (\<lambda>p C. C[p := G p]) ts C) = length C"
  by (rule sweep_inv [where I = "\<lambda>C'. length C' = length C"]) simp_all

lemma cell_div_mod:
  fixes r c m :: nat
  assumes "c < m"
  shows "(r * m + c) div m = r" "(r * m + c) mod m = c"
  using assms by simp_all

lemma naive_thread:
  "matMulCudaKernelNaive A B aRows aCols bRows 32 32 t C =
     (case cell_of aRows bRows t of None \<Rightarrow> C
      | Some p \<Rightarrow> C[p := dot A B aCols (p div bRows) (p mod bRows)])"
  by (simp add: matMulCudaKernelNaive_def cell_of_def Let_def fold_add_sum dot_def cell_div_mod)

lemma naive_launch:
  "fold (matMulCudaKernelNaive A B aRows aCols bRows 32 32)
        (grid_threads (CEIL_DIV bRows 32) (CEIL_DIV aRows 32) 32 32) C
   = sweep (cell_of aRows bRows) (\<lambda>p C. C[p := dot A B aCols (p div bRows) (p mod bRows)])
        (grid_threads ((bRows + 32 - 1) div 32) ((aRows + 32 - 1) div 32) 32 32) C"
proof -
  have "matMulCudaKernelNaive A B aRows aCols bRows 32 32 =
        (\<lambda>t C. case cell_of aRows bRows t of None \<Rightarrow> C
           | Some p \<Rightarrow> C[p := dot A B aCols (p div bRows) (p mod bRows)])"
    by (intro ext) (rule naive_thread)
  then show ?thesis by (simp add: sweep_def CEIL_DIV_def)
qed

lemma thread_in_block:
  "Thread bx byy x y \<in> set (block_threads 32 32 bx byy) \<longleftrightarrow> x < 32 \<and> y < 32"
  by (simp add: set_block_threads)

lemma load_phase:
  assumes x: "x < 32" and y: "y < 32"
  shows "fst (fold (load_tiles A B aRows aCols bRows 32 32 m) (block_threads 32 32 bx byy) AB) (y, x)
           = (if m * 32 + x < aCols \<and> byy * 32 + y < aRows
              then A ! ((byy * 32 + y) * aCols + m * 32 + x) else 0) \<and>
         snd (fold (load_tiles A B aRows aCols bRows 32 32 m) (block_threads 32 32 bx byy) AB) (y, x)
           = (if m * 32 + y < aCols \<and> bx * 32 + x < bRows
              then B ! ((bx * 32 + x) * aCols + m * 32 + y) else 0)"
proof -
  define Q where "Q st \<longleftrightarrow>
     fst st (y, x) = (if m * 32 + x < aCols \<and> byy * 32 + y < aRows
              then A ! ((byy * 32 + y) * aCols + m * 32 + x) else 0) \<and>
     snd st (y, x) = (if m * 32 + y < aCols \<and> bx * 32 + x < bRows
              then B ! ((bx * 32 + x) * aCols + m * 32 + y) else 0)"
    for st :: "'a tile \<times> 'a tile"
  have "Q (fold (load_tiles A B aRows aCols bRows 32 32 m) (block_threads 32 32 bx byy) AB)"
  proof (rule fold_establish [where I = "\<lambda>_. True" and Q = Q and ?t0.0 = "Thread bx byy x y"])
    show "Thread bx byy x y \<in> set (block_threads 32 32 bx byy)"
      using x y by (simp add: thread_in_block)
    show "Q (load_tiles A B aRows aCols bRows 32 32 m (Thread bx byy x y) st)" for st
      by (cases st) (simp add: Q_def load_tiles_def Let_def)
    show "Q (load_tiles A B aRows aCols bRows 32 32 m t st)"
      if tin: "t \<in> set (block_threads 32 32 bx byy)" and Qst: "Q st" for t st
    proof -
      obtain x' y' where t: "t = Thread bx byy x' y'"
        by (cases t) (use tin in \<open>auto simp: set_block_threads\<close>)
      show ?thesis using Qst
        by (cases st) (auto simp: Q_def load_tiles_def Let_def t)
    qed
  qed simp_all
  then show ?thesis by (simp add: Q_def)
qed

lemma accumulate_phase:
  fixes regs :: "thread \<Rightarrow> 'a::semiring_0"
  assumes d: "distinct ts" and t: "t \<in> set ts"
  shows "fold (accumulate_tile As Bs) ts regs t
           = regs t + (\<Sum>k<32. As (threadIdx_y t, k) * Bs (k, threadIdx_x t))"
proof -
  define P where "P r \<longleftrightarrow> r t = regs t" for r :: "thread \<Rightarrow> 'a"
  define Q where "Q r \<longleftrightarrow> r t = regs t + (\<Sum>k<32. As (threadIdx_y t, k) * Bs (k, threadIdx_x t))"
    for r :: "thread \<Rightarrow> 'a"
  have "Q (fold (accumulate_tile As Bs) ts regs)"
    by (rule fold_once [OF t d, where P = P and Q = Q])
       (simp_all add: P_def Q_def accumulate_tile_def fold_add_sum)
  then show ?thesis by (simp add: Q_def)
qed

lemma tile_iteration_regs:
  fixes regs :: "thread \<Rightarrow> 'a::semiring_0"
  assumes x: "x < 32" and y: "y < 32"
  shows "snd (snd (tile_iteration A B aRows aCols bRows 32 32 (block_threads 32 32 bx byy) m
                     (As, Bs, regs))) (Thread bx byy x y)
         = regs (Thread bx byy x y) +
           (\<Sum>k<32. (if m * 32 + k < aCols \<and> byy * 32 + y < aRows
                        then A ! ((byy * 32 + y) * aCols + m * 32 + k) else 0) *
                     (if m * 32 + k < aCols \<and> bx * 32 + x < bRows
                        then B ! ((bx * 32 + x) * aCols + m * 32 + k) else 0))"
proof -
  let ?ts = "block_threads 32 32 bx byy"
  obtain As' Bs' where L: "fold (load_tiles A B aRows aCols bRows 32 32 m) ?ts (As, Bs) = (As', Bs')"
    by (cases "fold (load_tiles A B aRows aCols bRows 32 32 m) ?ts (As, Bs)")
  have A': "As' (y, k) = (if m * 32 + k < aCols \<and> byy * 32 + y < aRows
              then A ! ((byy * 32 + y) * aCols + m * 32 + k) else 0)" if "k < 32" for k
    using load_phase [OF that y, of A B aRows aCols bRows m bx byy "(As, Bs)"] by (simp add: L)
  have B': "Bs' (k, x) = (if m * 32 + k < aCols \<and> bx * 32 + x < bRows
              then B ! ((bx * 32 + x) * aCols + m * 32 + k) else 0)" if "k < 32" for k
    using load_phase [OF x that, of A B aRows aCols bRows m bx byy "(As, Bs)"] by (simp add: L)
  have "snd (snd (tile_iteration A B aRows aCols bRows 32 32 ?ts m (As, Bs, regs))) (Thread bx byy x y)
        = fold (accumulate_tile As' Bs') ?ts regs (Thread bx byy x y)"
    by (simp add: tile_iteration_def L)
  also have "\<dots> = regs (Thread bx byy x y) + (\<Sum>k<32. As' (y, k) * Bs' (k, x))"
    using accumulate_phase [OF distinct_block_threads, of "Thread bx byy x y" 32 32 bx byy As' Bs' regs]
      x y by (simp add: thread_in_block)
  also have "(\<Sum>k<32. As' (y, k) * Bs' (k, x)) =
     (\<Sum>k<32. (if m * 32 + k < aCols \<and> byy * 32 + y < aRows
                        then A ! ((byy * 32 + y) * aCols + m * 32 + k) else 0) *
                     (if m * 32 + k < aCols \<and> bx * 32 + x < bRows
                        then B ! ((bx * 32 + x) * aCols + m * 32 + k) else 0))"
    by (rule sum.cong) (simp_all add: A' B')
  finally show ?thesis .
qed

lemma tile_loop_regs:
  fixes regs :: "thread \<Rightarrow> 'a::semiring_0"
  assumes x: "x < 32" and y: "y < 32"
  shows "snd (snd (fold (tile_iteration A B aRows aCols bRows 32 32 (block_threads 32 32 bx byy))
                     [0..<M] (As, Bs, regs))) (Thread bx byy x y)
         = regs (Thread bx byy x y) +
           (\<Sum>m<M. \<Sum>k<32. (if m * 32 + k < aCols \<and> byy * 32 + y < aRows
                        then A ! ((byy * 32 + y) * aCols + m * 32 + k) else 0) *
                     (if m * 32 + k < aCols \<and> bx * 32 + x < bRows
                        then B ! ((bx * 32 + x) * aCols + m * 32 + k) else 0))"
proof (induction M)
  case 0
  show ?case by simp
next
  case (Suc M)
  obtain As' Bs' regs' where st:
    "fold (tile_iteration A B aRows aCols bRows 32 32 (block_threads 32 32 bx byy)) [0..<M] (As, Bs, regs)
       = (As', Bs', regs')"
    by (metis prod_cases3)
  from Suc.IH have IH: "regs' (Thread bx byy x y) = regs (Thread bx byy x y) +
           (\<Sum>m<M. \<Sum>k<32. (if m * 32 + k < aCols \<and> byy * 32 + y < aRows
                        then A ! ((byy * 32 + y) * aCols + m * 32 + k) else 0) *
                     (if m * 32 + k < aCols \<and> bx * 32 + x < bRows
                        then B ! ((bx * 32 + x) * aCols + m * 32 + k) else 0))"
    by (simp add: st)
  show ?case
    using tile_iteration_regs [OF x y, of A B aRows aCols bRows bx byy M As' Bs' regs']
    by (simp add: st IH add.assoc)
qed

lemma trips_cover: "aCols \<le> nat ((int aCols - 1) sdiv 32 + 1) * 32"
proof (cases "aCols = 0")
  case True
  then show ?thesis by simp
next
  case False
  then have "(int aCols - 1) sdiv 32 = (int aCols - 1) div 32"
    by (simp add: signed_divide_int_def sgn_if)
  moreover have "int aCols \<le> ((int aCols - 1) div 32 + 1) * 32" by simp
  ultimately have "int aCols \<le> int (nat ((int aCols - 1) sdiv 32 + 1) * 32)"
    using False by simp
  then show ?thesis by (simp only: of_nat_le_iff)
qed

lemma padded_sum:
  fixes g :: "nat \<Rightarrow> 'a::comm_monoid_add"
  assumes z: "\<And>j. n \<le> j \<Longrightarrow> g j = 0" and le: "n \<le> M * 32"
  shows "(\<Sum>m<M. \<Sum>k<32. g (m * 32 + k)) = (\<Sum>j<n. g j)"
proof -
  have "(\<Sum>k<32. g (m * 32 + k)) = sum g {m * 32..<m * 32 + 32}" for m
    using sum.shift_bounds_nat_ivl [of g 0 "m * 32" 32]
    by (simp add: lessThan_atLeast0 add.commute)
  then have "(\<Sum>m<M. \<Sum>k<32. g (m * 32 + k)) = (\<Sum>m<M. sum g {m * 32..<m * 32 + 32})"
    by simp
  also have "\<dots> = sum g {..<M * 32}" by (rule sum.nat_group)
  also have "\<dots> = sum g {..<n}"
    by (rule sum.mono_neutral_right) (use z le in auto)
  finally show ?thesis .
qed

lemma block_regs:
  assumes x: "x < 32" and y: "y < 32"
    and row: "byy * 32 + y < aRows" and col: "bx * 32 + x < bRows"
  shows "snd (snd (fold (tile_iteration A B aRows aCols bRows 32 32 (block_threads 32 32 bx byy))
                     [0..<nat ((int aCols - 1) sdiv 32 + 1)] (As0, Bs0, \<lambda>t. 0))) (Thread bx byy x y)
         = dot A B aCols (byy * 32 + y) (bx * 32 + x)"
proof -
  define g where "g j = (if j < aCols then A ! ((byy * 32 + y) * aCols + j) * B ! ((bx * 32 + x) * aCols + j)
                   else 0)" for j
  have "(\<Sum>m<M. \<Sum>k<32. (if m * 32 + k < aCols \<and> byy * 32 + y < aRows
                        then A ! ((byy * 32 + y) * aCols + m * 32 + k) else 0) *
                     (if m * 32 + k < aCols \<and> bx * 32 + x < bRows
                        then B ! ((bx * 32 + x) * aCols + m * 32 + k) else 0))
        = (\<Sum>m<M. \<Sum>k<32. g (m * 32 + k))" for M
    by (intro sum.cong refl) (use row col in \<open>simp add: g_def add.assoc\<close>)
  moreover have "(\<Sum>m<nat ((int aCols - 1) sdiv 32 + 1). \<Sum>k<32. g (m * 32 + k)) = (\<Sum>j<aCols. g j)"
    by (rule padded_sum) (simp_all add: g_def trips_cover)
  moreover have "(\<Sum>j<aCols. g j) = dot A B aCols (byy * 32 + y) (bx * 32 + x)"
    by (simp add: g_def dot_def)
  ultimately show ?thesis
    using tile_loop_regs [OF x y, of A B aRows aCols bRows bx byy
        "nat ((int aCols - 1) sdiv 32 + 1)" As0 Bs0 "\<lambda>t. 0"]
    by simp
qed

lemma optimized_block:
  "matMulCudaKernelOptimized A B aRows aCols bRows 32 32 As0 Bs0 (bx, byy) C =
     fold (\<lambda>t C. case cell_of aRows bRows t of None \<Rightarrow> C
             | Some p \<Rightarrow> C[p := dot A B aCols (p div bRows) (p mod bRows)])
          (block_threads 32 32 bx byy) C"
proof -
  obtain As Bs regs where st:
    "fold (tile_iteration A B aRows aCols bRows 32 32 (block_threads 32 32 bx byy))
       [0..<nat ((int aCols - 1) sdiv 32 + 1)] (As0, Bs0, \<lambda>t. 0) = (As, Bs, regs)"
    by (metis prod_cases3)
  have "store_result aRows bRows 32 32 regs t =
        (\<lambda>C. case cell_of aRows bRows t of None \<Rightarrow> C
             | Some p \<Rightarrow> C[p := dot A B aCols (p div bRows) (p mod bRows)])"
    if tin: "t \<in> set (block_threads 32 32 bx byy)" for t
  proof -
    obtain x y where t: "t = Thread bx byy x y" and x: "x < 32" and y: "y < 32"
      by (cases t) (use tin in \<open>auto simp: set_block_threads\<close>)
    show ?thesis
    proof (cases "byy * 32 + y < aRows \<and> bx * 32 + x < bRows")
      case True
      then have "regs t = dot A B aCols (byy * 32 + y) (bx * 32 + x)"
        using block_regs [OF x y, of byy aRows bx bRows A B aCols As0 Bs0] by (simp add: st t)
      with True show ?thesis
        by (simp add: store_result_def cell_of_def t cell_div_mod fun_eq_iff Let_def)
    next
      case False
      then show ?thesis by (auto simp: store_result_def cell_of_def t fun_eq_iff Let_def)
    qed
  qed
  then have "fold (store_result aRows bRows 32 32 regs) (block_threads 32 32 bx byy) C =
     fold (\<lambda>t C. case cell_of aRows bRows t of None \<Rightarrow> C
             | Some p \<Rightarrow> C[p := dot A B aCols (p div bRows) (p mod bRows)])
          (block_threads 32 32 bx byy) C"
    by (intro fold_cong) simp_all
  then show ?thesis by (simp add: matMulCudaKernelOptimized_def st)
qed

lemma fold_concat_map: "fold w (concat (map f xs)) C = fold (\<lambda>x. fold w (f x)) xs C"
  by (induction xs arbitrary: C) simp_all

lemma fold_blocks_threads:
  "fold (\<lambda>(bx, byy). fold w (block_threads bdx bdy bx byy)) (grid_blocks gx gy) C
     = fold w (grid_threads gx gy bdx bdy) C"
proof -
  have "(\<lambda>b. fold w ((\<lambda>(bx, byy). block_threads bdx bdy bx byy) b))
        = (\<lambda>(bx, byy). fold w (block_threads bdx bdy bx byy))"
    by (auto simp: fun_eq_iff)
  then show ?thesis by (simp add: grid_threads_def fold_concat_map)
qed

lemma optimized_launch:
  "fold (matMulCudaKernelOptimized A B aRows aCols bRows 32 32 As0 Bs0)
        (grid_blocks (CEIL_DIV bRows 32) (CEIL_DIV aRows 32)) C
   = sweep (cell_of aRows bRows) (\<lambda>p C. C[p := dot A B aCols (p div bRows) (p mod bRows)])
        (grid_threads ((bRows + 32 - 1) div 32) ((aRows + 32 - 1) div 32) 32 32) C"
proof -
  have "matMulCudaKernelOptimized A B aRows aCols bRows 32 32 As0 Bs0 =
        (\<lambda>(bx, byy). fold (\<lambda>t C. case cell_of aRows bRows t of None \<Rightarrow> C
             | Some p \<Rightarrow> C[p := dot A B aCols (p div bRows) (p mod bRows)])
          (block_threads 32 32 bx byy))"
    by (auto simp: fun_eq_iff optimized_block)
  then show ?thesis by (simp add: fold_blocks_threads sweep_def CEIL_DIV_def)
qed

lemma naive_equals_optimized:
  "fold (matMulCudaKernelNaive A B aRows aCols bRows 32 32)
        (grid_threads (CEIL_DIV bRows 32) (CEIL_DIV aRows 32) 32 32) C
   = fold (matMulCudaKernelOptimized A B aRows aCols bRows 32 32 As0 Bs0)
        (grid_blocks (CEIL_DIV bRows 32) (CEIL_DIV aRows 32)) C"
  by (simp add: naive_launch optimized_launch)

lemma launch_cells:
  fixes C :: "'a::semiring_0 list"
  assumes len: "length C = aRows * bRows" and i: "i < aRows" and j: "j < bRows"
  shows "sweep (cell_of aRows bRows) (\<lambda>p C. C[p := dot A B aCols (p div bRows) (p mod bRows)])
           (grid_threads ((bRows + 32 - 1) div 32) ((aRows + 32 - 1) div 32) 32 32) C ! (i * bRows + j)
         = dot A B aCols i j"
proof -
  have p: "i * bRows + j < aRows * bRows" using i j by (rule cell_bound)
  show ?thesis
    using sweep_const_cell [OF covering_grid len p,
        of "\<lambda>p. dot A B aCols (p div bRows) (p mod bRows)"] j
    by (simp add: cell_div_mod)
qed

lemma launch_empty:
  assumes "aRows = 0 \<or> bRows = 0"
  shows "sweep (cell_of aRows bRows) upd
           (grid_threads ((bRows + 32 - 1) div 32) ((aRows + 32 - 1) div 32) 32 32) C = C"
proof -
  have "grid_threads ((bRows + 32 - 1) div 32) ((aRows + 32 - 1) div 32) 32 32 = []"
    using assms by (auto simp: grid_threads_def grid_blocks_def)
  then show ?thesis by (simp add: sweep_def)
qed

lemma matMulCUDA_result:
  "matMulCUDA a aRows aCols b bRows bCols out As0 Bs0 =
     Inr (sweep (cell_of aRows bRows) (\<lambda>p C. C[p := dot a b aCols (p div bRows) (p mod bRows)])
            (grid_threads ((bRows + 32 - 1) div 32) ((aRows + 32 - 1) div 32) 32 32) out)"
  by (simp add: matMulCUDA_def optimized_launch)

lemma matMulCUDANaive_result:
  "matMulCUDANaive a aRows aCols b bRows bCols out d_C =
     Inr (take (aRows * bRows)
            (sweep (cell_of aRows bRows)
               (\<lambda>p C. C[p := dot (take (aRows * aCols) a) (take (bRows * bCols) b) aCols
                                 (p div bRows) (p mod bRows)])
               (grid_threads ((bRows + 32 - 1) div 32) ((aRows + 32 - 1) div 32) 32 32) d_C)
          @ drop (aRows * bRows) out)"
  by (simp add: matMulCUDANaive_def naive_launch Let_def)

lemma dot_take:
  assumes i: "i < aRows" and j: "j < bRows" and le: "n \<le> bCols"
  shows "dot (take (aRows * n) a) (take (bRows * bCols) b) n i j = dot a b n i j"
  unfolding dot_def
proof (rule sum.cong [OF refl])
  fix k assume "k \<in> {..<n}"
  then have k: "k < n" by simp
  have 1: "i * n + k < aRows * n" using i k by (rule cell_bound)
  have "j * n + k < bRows * n" using j k by (rule cell_bound)
  moreover have "bRows * n \<le> bRows * bCols" using le by (rule mult_le_mono2)
  ultimately have 2: "j * n + k < bRows * bCols" by linarith
  show "take (aRows * n) a ! (i * n + k) * take (bRows * bCols) b ! (j * n + k)
                   = a ! (i * n + k) * b ! (j * n + k)"
    by (simp only: nth_take [OF 1] nth_take [OF 2])
qed

lemma singleton_list: "length C = 1 \<Longrightarrow> C ! 0 = v \<Longrightarrow> C = [v]"
  by (cases C) simp_all

lemma launch_zero_inner:
  fixes C :: "'a::semiring_0 list"
  assumes len: "length C = aRows * bRows"
  shows "sweep (cell_of aRows bRows) (\<lambda>p C. C[p := dot A B 0 (p div bRows) (p mod bRows)])
           (grid_threads ((bRows + 32 - 1) div 32) ((aRows + 32 - 1) div 32) 32 32) C
         = replicate (aRows * bRows) 0"
proof (rule nth_equalityI)
  show "length (sweep (cell_of aRows bRows) (\<lambda>p C. C[p := dot A B 0 (p div bRows) (p mod bRows)])
           (grid_threads ((bRows + 32 - 1) div 32) ((aRows + 32 - 1) div 32) 32 32) C)
        = length (replicate (aRows * bRows) (0::'a))"
    using len by (simp add: sweep_const_length)
  fix p
  assume "p < length (sweep (cell_of aRows bRows) (\<lambda>p C. C[p := dot A B 0 (p div bRows) (p mod bRows)])
           (grid_threads ((bRows + 32 - 1) div 32) ((aRows + 32 - 1) div 32) 32 32) C)"
  then have p: "p < aRows * bRows" using len by (simp add: sweep_const_length)
  show "sweep (cell_of aRows bRows) (\<lambda>p C. C[p := dot A B 0 (p div bRows) (p mod bRows)])
           (grid_threads ((bRows + 32 - 1) div 32) ((aRows + 32 - 1) div 32) 32 32) C ! p
        = replicate (aRows * bRows) (0::'a) ! p"
    using sweep_const_cell [OF covering_grid len p,
        of "\<lambda>p. dot A B 0 (p div bRows) (p mod bRows)"] p
    by (simp add: dot_def)
qed

subsection \<open>Row sum\<close>























subsection \<open>Transpose\<close>

lemma read_phase:
  assumes lx: "lx < 64" and ly: "ly < 64"
    and r: "byy * 64 + ly < n_rows" and c: "bx * 64 + lx < n_cols"
  shows "fold (transpose_read input n_rows n_cols) (block_threads 64 16 bx byy) tile0 (ly, lx)
           = input ! ((byy * 64 + ly) * n_cols + (bx * 64 + lx))"
proof -
  define Q where "Q tile \<longleftrightarrow> tile (ly, lx) = input ! ((byy * 64 + ly) * n_cols + (bx * 64 + lx))"
    for tile :: "'a tile"
  obtain q j where lyq: "ly = q * 4 + j" and j: "j < 4" and q: "q < 16"
  proof
    show "ly = (ly div 4) * 4 + ly mod 4" by simp
    show "ly mod 4 < 4" by simp
    show "ly div 4 < 16" using ly by simp
  qed
  have "Q (fold (transpose_read input n_rows n_cols) (block_threads 64 16 bx byy) tile0)"
  proof (rule fold_establish [where I = "\<lambda>_. True" and Q = Q and ?t0.0 = "Thread bx byy lx q"])
    show "Thread bx byy lx q \<in> set (block_threads 64 16 bx byy)"
      using lx q by (simp add: set_block_threads)
    show "Q (transpose_read input n_rows n_cols (Thread bx byy lx q) tile)" for tile
    proof -
      from j consider "j = 0" | "j = 1" | "j = 2" | "j = 3" by linarith
      then show ?thesis
        using r c by cases (simp_all add: Q_def transpose_read_def Let_def lyq ac_simps)
    qed
    show "Q (transpose_read input n_rows n_cols t tile)"
      if tin: "t \<in> set (block_threads 64 16 bx byy)" and Qt: "Q tile" for t tile
    proof -
      obtain x y where t: "t = Thread bx byy x y"
        by (cases t) (use tin in \<open>auto simp: set_block_threads\<close>)
      show ?thesis using Qt
        by (auto simp: Q_def transpose_read_def Let_def t ac_simps)
    qed
  qed simp_all
  then show ?thesis by (simp add: Q_def)
qed

lemma write_thread:
  assumes x: "x < 64" and y: "y < 16"
  shows "transpose_write n_rows n_cols
           (fold (transpose_read input n_rows n_cols) (block_threads 64 16 bx byy) tile0)
           (Thread bx byy x y) out
         = put input n_rows n_cols (byy * 64 + x) (bx * 64 + 4 * y + 3)
            (put input n_rows n_cols (byy * 64 + x) (bx * 64 + 4 * y + 2)
              (put input n_rows n_cols (byy * 64 + x) (bx * 64 + 4 * y + 1)
                (put input n_rows n_cols (byy * 64 + x) (bx * 64 + 4 * y + 0) out)))"
proof -
  have cell: "fold (transpose_read input n_rows n_cols) (block_threads 64 16 bx byy) tile0 (x, y * 4 + j)
        = input ! ((byy * 64 + x) * n_cols + (bx * 64 + 4 * y + j))"
    if "j < 4" "byy * 64 + x < n_rows" "bx * 64 + 4 * y + j < n_cols" for j
  proof -
    have "y * 4 + j < 64" using y that(1) by simp
    from read_phase [OF this x that(2), of bx n_cols input tile0] that(3)
    show ?thesis by (simp add: ac_simps)
  qed
  show ?thesis
    using cell [of 0] cell [of 1] cell [of 2] cell [of 3]
    by (simp add: transpose_write_def put_def Let_def)
qed

lemma put_length: "length (put input n_rows n_cols r c out) = length out"
  by (simp add: put_def)

lemma put_keeps:
  assumes r: "r < n_rows"
    and Q: "out ! (c * n_rows + r) = input ! (r * n_cols + c)"
  shows "put input n_rows n_cols r' c' out ! (c * n_rows + r) = input ! (r * n_cols + c)"
proof (cases "r' < n_rows \<and> c' < n_cols \<and> c' * n_rows + r' = c * n_rows + r")
  case True
  then have "c' = c \<and> r' = r" using split_cell [of c' n_rows r' c r] r by simp
  with Q show ?thesis
    by (cases "c * n_rows + r < length out") (simp_all add: put_def list_update_beyond)
next
  case False
  with Q show ?thesis by (auto simp: put_def)
qed

lemma put_sets:
  assumes r: "r < n_rows" and c: "c < n_cols" and len: "length out = n_rows * n_cols"
  shows "put input n_rows n_cols r c out ! (c * n_rows + r) = input ! (r * n_cols + c)"
proof -
  have "c * n_rows + r < n_cols * n_rows" using c r by (rule cell_bound)
  then have "c * n_rows + r < length out" using len by (simp add: mult.commute)
  then show ?thesis using r c by (simp add: put_def)
qed

lemma block_keeps:
  assumes r: "r < n_rows"
    and Q: "out ! (c * n_rows + r) = input ! (r * n_cols + c)"
  shows "transposeKernel input n_rows n_cols 64 16 tile0 (bx, byy) out ! (c * n_rows + r)
           = input ! (r * n_cols + c)"
proof -
  let ?tile = "fold (transpose_read input n_rows n_cols) (block_threads 64 16 bx byy) tile0"
  have "fold (transpose_write n_rows n_cols ?tile) (block_threads 64 16 bx byy) out ! (c * n_rows + r)
          = input ! (r * n_cols + c)"
  proof (rule fold_invariant [where I = "\<lambda>out'. out' ! (c * n_rows + r) = input ! (r * n_cols + c)"])
    show "out ! (c * n_rows + r) = input ! (r * n_cols + c)" by fact
    show "transpose_write n_rows n_cols ?tile t out' ! (c * n_rows + r) = input ! (r * n_cols + c)"
      if tin: "t \<in> set (block_threads 64 16 bx byy)"
        and Q': "out' ! (c * n_rows + r) = input ! (r * n_cols + c)" for t out'
    proof -
      obtain x y where t: "t = Thread bx byy x y" and x: "x < 64" and y: "y < 16"
        by (cases t) (use tin in \<open>auto simp: set_block_threads\<close>)
      show ?thesis
        unfolding t write_thread [OF x y] by (intro put_keeps r Q')
    qed
  qed
  then show ?thesis by (simp add: transposeKernel_def Let_def)
qed

lemma block_length:
  "length (transposeKernel input n_rows n_cols bdx bdy tile0 b out) = length out"
proof -
  have "length (fold (transpose_write n_rows n_cols tile) ts out) = length out" for tile ts
    by (rule fold_invariant [where I = "\<lambda>out'. length out' = length out"])
       (simp_all add: transpose_write_def Let_def)
  then show ?thesis by (cases b) (simp add: transposeKernel_def Let_def)
qed

lemma block_sets:
  assumes r: "r < n_rows" and c: "c < n_cols" and len: "length out = n_rows * n_cols"
  shows "transposeKernel input n_rows n_cols 64 16 tile0 (c div 64, r div 64) out ! (c * n_rows + r)
           = input ! (r * n_cols + c)"
proof -
  let ?bx = "c div 64" and ?byy = "r div 64"
  let ?tile = "fold (transpose_read input n_rows n_cols) (block_threads 64 16 ?bx ?byy) tile0"
  define x where "x = r mod 64"
  define y where "y = (c mod 64) div 4"
  define j where "j = (c mod 64) mod 4"
  have x: "x < 64" and y: "y < 16" and j: "j < 4" by (simp_all add: x_def y_def j_def)
  have re: "?byy * 64 + x = r" by (simp add: x_def)
  have "c mod 64 = 4 * y + j" by (simp add: y_def j_def)
  then have ce: "?bx * 64 + 4 * y + j = c"
    using div_mult_mod_eq [of c 64] by linarith
  define Q where "Q out' \<longleftrightarrow> out' ! (c * n_rows + r) = input ! (r * n_cols + c)"
    for out' :: "'a list"
  define I where "I out' \<longleftrightarrow> length out' = n_rows * n_cols" for out' :: "'a list"
  have keep: "Q (put input n_rows n_cols r' c' out')" if "Q out'" for r' c' out'
    using that r unfolding Q_def by (intro put_keeps)
  have set: "Q (put input n_rows n_cols r c out')" if "I out'" for out'
    using that r c unfolding Q_def I_def by (intro put_sets)
  have lenp: "I (put input n_rows n_cols r' c' out')" if "I out'" for r' c' out'
    using that by (simp add: I_def put_length)
  have "Q (fold (transpose_write n_rows n_cols ?tile) (block_threads 64 16 ?bx ?byy) out)"
  proof (rule fold_establish [where I = I and Q = Q and ?t0.0 = "Thread ?bx ?byy x y"])
    show "Thread ?bx ?byy x y \<in> set (block_threads 64 16 ?bx ?byy)"
      using x y by (simp add: set_block_threads)
    show "I out" using len by (simp add: I_def)
    show "I (transpose_write n_rows n_cols ?tile t out')" if "I out'" for t out'
      using that by (simp add: I_def transpose_write_def Let_def)
    show "Q (transpose_write n_rows n_cols ?tile (Thread ?bx ?byy x y) out')" if Io: "I out'" for out'
    proof -
      from j consider "j = 0" | "j = 1" | "j = 2" | "j = 3" by linarith
      then show ?thesis
      proof cases
        case 1
        with ce have e: "?bx * 64 + 4 * y + 0 = c" by simp
        show ?thesis
          unfolding write_thread [OF x y] re e by (intro keep set Io)
      next
        case 2
        with ce have e: "?bx * 64 + 4 * y + 1 = c" by simp
        show ?thesis
          unfolding write_thread [OF x y] re e by (intro keep set lenp Io)
      next
        case 3
        with ce have e: "?bx * 64 + 4 * y + 2 = c" by simp
        show ?thesis
          unfolding write_thread [OF x y] re e by (intro keep set lenp Io)
      next
        case 4
        with ce have e: "?bx * 64 + 4 * y + 3 = c" by simp
        show ?thesis
          unfolding write_thread [OF x y] re e by (intro set lenp Io)
      qed
    qed
    show "Q (transpose_write n_rows n_cols ?tile t out')"
      if tin: "t \<in> set (block_threads 64 16 ?bx ?byy)" and "I out'" and Q': "Q out'" for t out'
    proof -
      obtain x' y' where t: "t = Thread ?bx ?byy x' y'" and x': "x' < 64" and y': "y' < 16"
        by (cases t) (use tin in \<open>auto simp: set_block_threads\<close>)
      show ?thesis unfolding t write_thread [OF x' y'] by (intro keep Q')
    qed
  qed
  then show ?thesis by (simp add: Q_def transposeKernel_def Let_def)
qed

lemma transpose_launch_cell:
  assumes r: "r < n_rows" and c: "c < n_cols" and len: "length out = n_rows * n_cols"
  shows "fold (transposeKernel input n_rows n_cols 64 16 tile0)
           (grid_blocks (CEIL_DIV n_cols 64) (CEIL_DIV n_rows 64)) out ! (c * n_rows + r)
         = input ! (r * n_cols + c)"
proof -
  define Q where "Q out' \<longleftrightarrow> out' ! (c * n_rows + r) = input ! (r * n_cols + c)"
    for out' :: "'a list"
  define I where "I out' \<longleftrightarrow> length out' = n_rows * n_cols" for out' :: "'a list"
  have "Q (fold (transposeKernel input n_rows n_cols 64 16 tile0)
           (grid_blocks (CEIL_DIV n_cols 64) (CEIL_DIV n_rows 64)) out)"
  proof (rule fold_establish [where I = I and Q = Q and ?t0.0 = "(c div 64, r div 64)"])
    have "c div 64 < (n_cols + 63) div 64" "r div 64 < (n_rows + 63) div 64"
      using r c by arith+
    then show "(c div 64, r div 64) \<in> set (grid_blocks (CEIL_DIV n_cols 64) (CEIL_DIV n_rows 64))"
      by (simp add: set_grid_blocks CEIL_DIV_def add.commute)
    show "I out" using len by (simp add: I_def)
    show "I (transposeKernel input n_rows n_cols 64 16 tile0 b out')" if "I out'" for b out'
      using that by (simp add: I_def block_length)
    show "Q (transposeKernel input n_rows n_cols 64 16 tile0 (c div 64, r div 64) out')"
      if "I out'" for out'
      using that r c unfolding Q_def I_def by (intro block_sets)
    show "Q (transposeKernel input n_rows n_cols 64 16 tile0 b out')" if "Q out'" for b out'
      using that r unfolding Q_def by (cases b) (simp add: block_keeps)
  qed
  then show ?thesis by (simp add: Q_def)
qed

lemma transpose_launch_length:
  "length (fold (transposeKernel input n_rows n_cols bdx bdy tile0) bs out) = length out"
  by (rule fold_invariant [where I = "\<lambda>out'. length out' = length out"])
     (simp_all add: block_length)

subsection \<open>Inverse-CDF scan\<close>

lemma weightedSample_loop_hit:
  "tmp < len \<Longrightarrow> rand_val \<le> csum + probs ! tmp \<Longrightarrow>
   weightedSample_loop probs rand_val len csum tmp = tmp"
  by (subst weightedSample_loop.simps) simp

lemma weightedSample_loop_miss:
  "tmp < len \<Longrightarrow> csum + probs ! tmp < rand_val \<Longrightarrow>
   weightedSample_loop probs rand_val len csum tmp
     = weightedSample_loop probs rand_val len (csum + probs ! tmp) (tmp + 1)"
  by (subst weightedSample_loop.simps) simp

lemma weightedSample_loop_end:
  "\<not> tmp < len \<Longrightarrow> weightedSample_loop probs rand_val len csum tmp = tmp"
  by (subst weightedSample_loop.simps) simp

lemma weightedSample_loop_le:
  "tmp \<le> len \<Longrightarrow> weightedSample_loop probs rand_val len csum tmp \<le> len"
proof (induction probs rand_val len csum tmp rule: weightedSample_loop.induct)
  case (1 probs rand_val len csum tmp)
  consider "tmp < len" "rand_val \<le> csum + probs ! tmp"
    | "tmp < len" "csum + probs ! tmp < rand_val" | "\<not> tmp < len"
    by linarith
  then show ?case
  proof cases
    case 1
    then show ?thesis by (simp add: weightedSample_loop_hit)
  next
    case 2
    with "1.IH" show ?thesis by (simp add: weightedSample_loop_miss)
  next
    case 3
    with "1.prems" show ?thesis by (simp add: weightedSample_loop_end)
  qed
qed

lemma weightedSample_loop_exhausted:
  assumes "\<forall>i. tmp \<le> i \<and> i < len \<longrightarrow> csum + sum ((!) probs) {tmp..i} < rand_val"
    and "tmp \<le> len"
  shows "weightedSample_loop probs rand_val len csum tmp = len"
  using assms
proof (induction probs rand_val len csum tmp rule: weightedSample_loop.induct)
  case (1 probs rand_val len csum tmp)
  show ?case
  proof (cases "tmp < len")
    case True
    from "1.prems"(1) True have "csum + sum ((!) probs) {tmp..tmp} < rand_val" by blast
    then have here: "csum + probs ! tmp < rand_val" by simp
    have next_sums: "csum + probs ! tmp + sum ((!) probs) {tmp + 1..i} < rand_val"
      if i: "tmp + 1 \<le> i \<and> i < len" for i
    proof -
      have "sum ((!) probs) {tmp..i} = probs ! tmp + sum ((!) probs) {tmp + 1..i}"
        using i by (simp add: sum.atLeast_Suc_atMost)
      moreover from "1.prems"(1) i have "csum + sum ((!) probs) {tmp..i} < rand_val" by simp
      ultimately show ?thesis by (simp add: add.assoc)
    qed
    have "weightedSample_loop probs rand_val len (csum + probs ! tmp) (tmp + 1) = len"
    proof (rule "1.IH")
      show "tmp < len" by fact
      show "\<not> rand_val \<le> csum + probs ! tmp" using here by simp
      show "\<forall>i. tmp + 1 \<le> i \<and> i < len \<longrightarrow>
              csum + probs ! tmp + sum ((!) probs) {tmp + 1..i} < rand_val"
        using next_sums by blast
      show "tmp + 1 \<le> len" using True by simp
    qed
    with True here show ?thesis by (simp add: weightedSample_loop_miss)
  next
    case False
    with "1.prems"(2) show ?thesis by (simp add: weightedSample_loop_end)
  qed
qed

lemma weightedSampleKernel_range:
  "weightedSampleKernel probs rand_val len \<le> len"
  by (simp add: weightedSampleKernel_def weightedSample_loop_le)

lemma weightedSampleKernel_exhausted:
  "\<forall>i<len. sum ((!) probs) {0..i} < rand_val \<Longrightarrow> weightedSampleKernel probs rand_val len = len"
  unfolding weightedSampleKernel_def
  by (rule weightedSample_loop_exhausted) simp_all

section \<open>Claims\<close>

text \<open>
  C1 (defect in the code). The claim says the sampler always returns an index below the
  width and falls back to the last index when the scan runs out. The scan returns the
  loop counter, which equals the width when no cumulative sum reaches the draw: for the
  row 1/4, 1/4 and the draw 1 the kernel stores 2, which is neither below 2 nor the last
  index 1.
\<close>

theorem weightedSampleKernel_exhausted_returns_length:
  "weightedSampleKernel [1/4, 1/4] 1 2 = 2"
  by (simp add: weightedSampleKernel_def weightedSample_loop.simps)

text \<open>
  C2 (corrected). The tile operators do not read column 0 of the second operand's row
  \<open>r\<close>: the macro text is \<^verbatim>\<open>a[i] = a[i] + b[i % aCols]\<close>, so the cell in column \<open>c\<close> of
  any row is combined with entry \<open>c\<close> of the second operand's buffer. For the operands
  A = 0 0 / 0 0 and B = 1 2 / 3 4 the cell (1, 0) becomes 0 + 1, not 0 + B[1][0] = 0 + 3;
  and replacing B[0][1] = 2 by 9, an entry outside column 0, changes the cell (0, 1).
\<close>

theorem add_tile_column0_counterexample:
  "fst (add_tileCUDA (store_of [[0, 0, 0, 0], [1, 2, 3, 4]])
          \<lparr>dat = 0, rows = 2, cols = 2\<rparr> \<lparr>dat = 1, rows = 2, cols = 2\<rparr>) 0 ! (1 * 2 + 0)
   \<noteq> store_of [[0, 0, 0, 0], [1, 2, 3, 4]] 0 ! (1 * 2 + 0)
     + store_of [[0, 0, 0, 0], [1, 2, 3, 4]] 1 ! (1 * 2 + 0) \<and>
   fst (add_tileCUDA (store_of [[0, 0, 0, 0], [1, 2, 3, 4]])
          \<lparr>dat = 0, rows = 2, cols = 2\<rparr> \<lparr>dat = 1, rows = 2, cols = 2\<rparr>) 0 ! (0 * 2 + 1)
   \<noteq> fst (add_tileCUDA (store_of [[0, 0, 0, 0], [1, 9, 3, 4]])
          \<lparr>dat = 0, rows = 2, cols = 2\<rparr> \<lparr>dat = 1, rows = 2, cols = 2\<rparr>) 0 ! (0 * 2 + 1)"
proof -
  have cell: "fst (add_tileCUDA (store_of [[0, 0, 0, 0], B])
          \<lparr>dat = 0, rows = 2, cols = 2\<rparr> \<lparr>dat = 1, rows = 2, cols = 2\<rparr>) 0 ! (r * 2 + c) = 0 + B ! c"
    if "r < 2" "c < 2" for B r c
    using tile_sweep_cell [where s = "store_of [[0, 0, 0, 0], B]"
        and a = 0 and b = 1 and nr = 2 and nc = 2 and r = r and c = c and opr = opr_add_tile
        and g = "(+)", OF covering_grid] that
    by (auto simp: add_tileCUDA_def BINARY_CUDA_sweep opr_add_tile_def less_2_cases_iff)
  show ?thesis
    using cell [of 1 0 "[1, 2, 3, 4]"] cell [of 0 1 "[1, 2, 3, 4]"] cell [of 0 1 "[1, 9, 3, 4]"]
    by simp
qed

text \<open>
  C2 as amended. For operands in distinct buffers, the first of \<open>rows * cols\<close> entries
  and the second of at least \<open>cols\<close> entries, \<^verbatim>\<open>add_tile\<close> and \<^verbatim>\<open>multiply_tile\<close> (GPU and
  CPU reference) set the cell in row \<open>r\<close> and column \<open>c\<close> of the first operand to its old
  value combined with entry \<open>c\<close> of the second operand's row-major buffer; the result
  depends only on the first \<open>cols\<close> entries of that buffer.
\<close>

theorem tile_ops_combine_with_buffer_prefix:
  assumes len: "length (s (dat a)) = rows a * cols a" and ne: "dat a \<noteq> dat b"
    and lenb: "cols a \<le> length (s (dat b))"
  shows
    "(\<forall>r<rows a. \<forall>c<cols a.
        fst (add_tileCUDA s a b) (dat a) ! (r * cols a + c)
          = s (dat a) ! (r * cols a + c) + s (dat b) ! c \<and>
        fst (multiply_tileCUDA s a b) (dat a) ! (r * cols a + c)
          = s (dat a) ! (r * cols a + c) * s (dat b) ! c \<and>
        fst (add_tile s a b) (dat a) ! (r * cols a + c)
          = s (dat a) ! (r * cols a + c) + s (dat b) ! c \<and>
        fst (multiply_tile s a b) (dat a) ! (r * cols a + c)
          = s (dat a) ! (r * cols a + c) * s (dat b) ! c) \<and>
     (\<forall>s'. s' (dat a) = s (dat a) \<and> take (cols a) (s' (dat b)) = take (cols a) (s (dat b)) \<longrightarrow>
        fst (add_tileCUDA s' a b) (dat a) = fst (add_tileCUDA s a b) (dat a) \<and>
        fst (multiply_tileCUDA s' a b) (dat a) = fst (multiply_tileCUDA s a b) (dat a) \<and>
        fst (add_tile s' a b) (dat a) = fst (add_tile s a b) (dat a) \<and>
        fst (multiply_tile s' a b) (dat a) = fst (multiply_tile s a b) (dat a))"
proof (intro conjI allI impI)
  fix r c assume rc: "r < rows a" "c < cols a"
  have add: "opr_add_tile x bs i (cols a) = x + bs ! (i mod cols a)" for x bs i
    by (simp add: opr_add_tile_def)
  have mul: "opr_multiply_tile x bs i (cols a) = x * bs ! (i mod cols a)" for x bs i
    by (simp add: opr_multiply_tile_def)
  show "fst (add_tileCUDA s a b) (dat a) ! (r * cols a + c)
          = s (dat a) ! (r * cols a + c) + s (dat b) ! c"
    using tile_sweep_cell [where s = s and a = "dat a" and g = "(+)" and opr = opr_add_tile
        and nr = "rows a" and nc = "cols a", OF covering_grid len ne rc add]
    by (simp add: add_tileCUDA_def BINARY_CUDA_sweep)
  show "fst (multiply_tileCUDA s a b) (dat a) ! (r * cols a + c)
          = s (dat a) ! (r * cols a + c) * s (dat b) ! c"
    using tile_sweep_cell [where s = s and a = "dat a" and g = "(*)" and opr = opr_multiply_tile
        and nr = "rows a" and nc = "cols a", OF covering_grid len ne rc mul]
    by (simp add: multiply_tileCUDA_def BINARY_CUDA_sweep)
  show "fst (add_tile s a b) (dat a) ! (r * cols a + c)
          = s (dat a) ! (r * cols a + c) + s (dat b) ! c"
    using tile_sweep_cell [where s = s and a = "dat a" and g = "(+)" and opr = opr_add_tile
        and nr = "rows a" and nc = "cols a", OF covering_upt len ne rc add]
    by (simp add: add_tile_def BINARY_sweep)
  show "fst (multiply_tile s a b) (dat a) ! (r * cols a + c)
          = s (dat a) ! (r * cols a + c) * s (dat b) ! c"
    using tile_sweep_cell [where s = s and a = "dat a" and g = "(*)" and opr = opr_multiply_tile
        and nr = "rows a" and nc = "cols a", OF covering_upt len ne rc mul]
    by (simp add: multiply_tile_def BINARY_sweep)
next
  fix s' assume h: "s' (dat a) = s (dat a) \<and> take (cols a) (s' (dat b)) = take (cols a) (s (dat b))"
  then have sa: "s' (dat a) = s (dat a)"
    and sb: "take (cols a) (s' (dat b)) = take (cols a) (s (dat b))" by simp_all
  have add: "opr_add_tile x bs i (cols a) = x + bs ! (i mod cols a)" for x bs i
    by (simp add: opr_add_tile_def)
  have mul: "opr_multiply_tile x bs i (cols a) = x * bs ! (i mod cols a)" for x bs i
    by (simp add: opr_multiply_tile_def)
  show "fst (add_tileCUDA s' a b) (dat a) = fst (add_tileCUDA s a b) (dat a)"
    using tile_sweep_depends [where s = s and a = "dat a" and g = "(+)" and opr = opr_add_tile
        and nr = "rows a" and nc = "cols a", OF covering_grid len ne sa sb add]
    by (simp add: add_tileCUDA_def BINARY_CUDA_sweep)
  show "fst (multiply_tileCUDA s' a b) (dat a) = fst (multiply_tileCUDA s a b) (dat a)"
    using tile_sweep_depends [where s = s and a = "dat a" and g = "(*)" and opr = opr_multiply_tile
        and nr = "rows a" and nc = "cols a", OF covering_grid len ne sa sb mul]
    by (simp add: multiply_tileCUDA_def BINARY_CUDA_sweep)
  show "fst (add_tile s' a b) (dat a) = fst (add_tile s a b) (dat a)"
    using tile_sweep_depends [where s = s and a = "dat a" and g = "(+)" and opr = opr_add_tile
        and nr = "rows a" and nc = "cols a", OF covering_upt len ne sa sb add]
    by (simp add: add_tile_def BINARY_sweep)
  show "fst (multiply_tile s' a b) (dat a) = fst (multiply_tile s a b) (dat a)"
    using tile_sweep_depends [where s = s and a = "dat a" and g = "(*)" and opr = opr_multiply_tile
        and nr = "rows a" and nc = "cols a", OF covering_upt len ne sa sb mul]
    by (simp add: multiply_tile_def BINARY_sweep)
qed

theorem tile_ops_combine_with_buffer_prefix_witness:
  "fst (multiply_tileCUDA (store_of [[5, 6, 7, 8], [1, 2, 3, 4]])
          \<lparr>dat = 0, rows = 2, cols = 2\<rparr> \<lparr>dat = 1, rows = 2, cols = 2\<rparr>) 0 ! (1 * 2 + 1) = 8 * 2"
proof -
  have "length (store_of [[5, 6, 7, 8], [1, 2, 3, 4]] (dat \<lparr>dat = 0, rows = 2, cols = 2\<rparr>))
          = rows \<lparr>dat = 0, rows = 2, cols = 2\<rparr> * cols \<lparr>dat = 0, rows = 2, cols = 2\<rparr>"
    and "dat \<lparr>dat = 0, rows = 2, cols = 2\<rparr> \<noteq> dat \<lparr>dat = 1, rows = 2, cols = 2\<rparr>"
    and "cols \<lparr>dat = 0, rows = 2, cols = 2\<rparr>
          \<le> length (store_of [[5, 6, 7, 8], [1, 2, 3, 4]] (dat \<lparr>dat = 1, rows = 2, cols = 2\<rparr>))"
    by simp_all
  from tile_ops_combine_with_buffer_prefix [where s = "store_of [[5, 6, 7, 8], [1, 2, 3, 4]]"
      and a = "\<lparr>dat = 0, rows = 2, cols = 2\<rparr>" and b = "\<lparr>dat = 1, rows = 2, cols = 2\<rparr>",
      OF this, THEN conjunct1, rule_format, of 1 1]
  have "fst (multiply_tileCUDA (store_of [[5, 6, 7, 8], [1, 2, 3, 4]])
          \<lparr>dat = 0, rows = 2, cols = 2\<rparr> \<lparr>dat = 1, rows = 2, cols = 2\<rparr>) 0 ! (1 * 2 + 1)
        = store_of [[5, 6, 7, 8], [1, 2, 3, 4]] 0 ! (1 * 2 + 1)
          * store_of [[5, 6, 7, 8], [1, 2, 3, 4]] 1 ! 1"
    by simp
  then show ?thesis by simp
qed

text \<open>
  C4 (corrected). No entry point checks \<^verbatim>\<open>aCols\<close> against \<^verbatim>\<open>bCols\<close> or reports
  anything: the functions return \<^verbatim>\<open>void\<close>, and \<^verbatim>\<open>bCols\<close> never reaches the kernels.
  A call with \<open>aCols = 1\<close> and \<open>bCols = 2\<close> ends normally and stores the product of the
  first entries of the two rows.
\<close>

theorem matMulCUDA_mismatch_counterexample:
  "(1::nat) \<noteq> 2 \<and>
   matMulCUDA [2] 1 1 [3, 5] 1 2 [0] blank_tile blank_tile \<noteq> Inl DimensionMismatch \<and>
   matMulCUDA [2] 1 1 [3, 5] 1 2 [0] blank_tile blank_tile = Inr [6 :: int]"
proof -
  have "sweep (cell_of 1 1) (\<lambda>p C. C[p := dot [2] [3, 5] 1 (p div 1) (p mod 1)])
          (grid_threads ((1 + 32 - 1) div 32) ((1 + 32 - 1) div 32) 32 32) [0] = [6 :: int]"
    using launch_cells [of "[0 :: int]" 1 1 0 0 "[2]" "[3, 5]" 1]
      sweep_const_length [of "cell_of 1 1" "\<lambda>p. dot [2] [3, 5 :: int] 1 (p div 1) (p mod 1)"
        "grid_threads ((1 + 32 - 1) div 32) ((1 + 32 - 1) div 32) 32 32" "[0]"]
    by (intro singleton_list) (simp_all add: dot_def)
  then show ?thesis by (simp add: matMulCUDA_result)
qed

text \<open>
  C4 as amended. The entry points never report an error. They read \<open>B\<close> with row stride
  \<open>aCols\<close> whatever \<open>bCols\<close> is: with buffers large enough for every access, a result
  buffer of \<open>aRows * bRows\<close> entries (and, for \<^verbatim>\<open>matMulCUDANaive\<close>, which copies only
  \<open>bRows * bCols\<close> entries of \<open>B\<close>, with \<open>aCols \<le> bCols\<close>) cell \<open>(i, j)\<close> receives the
  sum over \<open>k < aCols\<close> of \<open>A[i * aCols + k] * B[j * aCols + k]\<close>. When \<open>aRows\<close> or
  \<open>bRows\<close> is zero nothing is written; when \<open>aCols\<close> is zero every one of the
  \<open>aRows * bRows\<close> cells is set to 0.
\<close>

theorem matmul_entry_points_report_nothing:
  fixes a b out d_C :: "'a::semiring_0 list"
  shows
    "(case matMulCUDA a aRows aCols b bRows bCols out As0 Bs0 of
        Inl e \<Rightarrow> False
      | Inr C \<Rightarrow> length C = length out \<and>
          (length out = aRows * bRows \<and> aRows * aCols \<le> length a \<and>
           bRows * aCols \<le> length b \<longrightarrow>
             (\<forall>i<aRows. \<forall>j<bRows.
                C ! (i * bRows + j) = (\<Sum>k<aCols. a ! (i * aCols + k) * b ! (j * aCols + k))) \<and>
             (aCols = 0 \<longrightarrow> C = replicate (aRows * bRows) 0)) \<and>
          (aRows = 0 \<or> bRows = 0 \<longrightarrow> C = out)) \<and>
     (case matMulCUDANaive a aRows aCols b bRows bCols out d_C of
        Inl e \<Rightarrow> False
      | Inr C \<Rightarrow>
          (length out = aRows * bRows \<and> length d_C = aRows * bRows \<and>
           aRows * aCols \<le> length a \<and> bRows * bCols \<le> length b \<longrightarrow>
             length C = aRows * bRows \<and>
             (aCols \<le> bCols \<longrightarrow>
                (\<forall>i<aRows. \<forall>j<bRows.
                   C ! (i * bRows + j) = (\<Sum>k<aCols. a ! (i * aCols + k) * b ! (j * aCols + k)))) \<and>
             (aCols = 0 \<longrightarrow> C = replicate (aRows * bRows) 0)) \<and>
          (aRows = 0 \<or> bRows = 0 \<longrightarrow> C = out))"
proof (intro conjI)
  let ?ts = "grid_threads ((bRows + 32 - 1) div 32) ((aRows + 32 - 1) div 32) 32 32"
  let ?run = "\<lambda>A B. sweep (cell_of aRows bRows)
                (\<lambda>p C. C[p := dot A B aCols (p div bRows) (p mod bRows)]) ?ts"
  have len: "length (?run A B C0) = length C0" for A B and C0 :: "'a list"
    by (rule sweep_const_length)
  show "case matMulCUDA a aRows aCols b bRows bCols out As0 Bs0 of
        Inl e \<Rightarrow> False
      | Inr C \<Rightarrow> length C = length out \<and>
          (length out = aRows * bRows \<and> aRows * aCols \<le> length a \<and>
           bRows * aCols \<le> length b \<longrightarrow>
             (\<forall>i<aRows. \<forall>j<bRows.
                C ! (i * bRows + j) = (\<Sum>k<aCols. a ! (i * aCols + k) * b ! (j * aCols + k))) \<and>
             (aCols = 0 \<longrightarrow> C = replicate (aRows * bRows) 0)) \<and>
          (aRows = 0 \<or> bRows = 0 \<longrightarrow> C = out)"
    unfolding matMulCUDA_result sum.case
  proof (intro conjI impI allI)
    show "length (?run a b out) = length out" by (rule len)
    {
      fix i j
      assume "length out = aRows * bRows \<and> aRows * aCols \<le> length a \<and> bRows * aCols \<le> length b"
        "i < aRows" "j < bRows"
      then show "?run a b out ! (i * bRows + j)
                 = (\<Sum>k<aCols. a ! (i * aCols + k) * b ! (j * aCols + k))"
        using launch_cells [of out aRows bRows i j a b aCols] by (simp add: dot_def)
    }
    {
      assume "length out = aRows * bRows \<and> aRows * aCols \<le> length a \<and> bRows * aCols \<le> length b"
        "aCols = 0"
      then show "?run a b out = replicate (aRows * bRows) 0"
        using launch_zero_inner [of out aRows bRows a b] by simp
    }
    assume "aRows = 0 \<or> bRows = 0"
    then show "?run a b out = out" by (rule launch_empty)
  qed
  have naive_cell: "(take (aRows * bRows)
        (?run (take (aRows * aCols) a) (take (bRows * bCols) b) d_C) @ drop (aRows * bRows) out)
         ! (i * bRows + j)
       = (\<Sum>k<aCols. a ! (i * aCols + k) * b ! (j * aCols + k))"
    if l: "length out = aRows * bRows" "length d_C = aRows * bRows" and le: "aCols \<le> bCols"
      and i: "i < aRows" and j: "j < bRows" for i j
  proof -
    have p: "i * bRows + j < aRows * bRows" using i j by (rule cell_bound)
    have "(take (aRows * bRows)
        (?run (take (aRows * aCols) a) (take (bRows * bCols) b) d_C) @ drop (aRows * bRows) out)
         ! (i * bRows + j)
        = ?run (take (aRows * aCols) a) (take (bRows * bCols) b) d_C ! (i * bRows + j)"
      using p l by (simp add: nth_append sweep_const_length)
    also have "\<dots> = dot (take (aRows * aCols) a) (take (bRows * bCols) b) aCols i j"
      by (rule launch_cells [OF l(2) i j])
    also have "\<dots> = dot a b aCols i j" by (rule dot_take [OF i j le])
    finally show ?thesis by (simp add: dot_def)
  qed
  have naive_zero: "take (aRows * bRows)
        (?run (take (aRows * aCols) a) (take (bRows * bCols) b) d_C) @ drop (aRows * bRows) out
       = replicate (aRows * bRows) 0"
    if l: "length out = aRows * bRows" "length d_C = aRows * bRows" and z: "aCols = 0"
    using launch_zero_inner [OF l(2), of "take (aRows * aCols) a" "take (bRows * bCols) b"] l z
    by simp
  show "case matMulCUDANaive a aRows aCols b bRows bCols out d_C of
        Inl e \<Rightarrow> False
      | Inr C \<Rightarrow>
          (length out = aRows * bRows \<and> length d_C = aRows * bRows \<and>
           aRows * aCols \<le> length a \<and> bRows * bCols \<le> length b \<longrightarrow>
             length C = aRows * bRows \<and>
             (aCols \<le> bCols \<longrightarrow>
                (\<forall>i<aRows. \<forall>j<bRows.
                   C ! (i * bRows + j) = (\<Sum>k<aCols. a ! (i * aCols + k) * b ! (j * aCols + k)))) \<and>
             (aCols = 0 \<longrightarrow> C = replicate (aRows * bRows) 0)) \<and>
          (aRows = 0 \<or> bRows = 0 \<longrightarrow> C = out)"
    unfolding matMulCUDANaive_result sum.case
  proof (intro conjI impI allI)
    assume l: "length out = aRows * bRows \<and> length d_C = aRows * bRows \<and>
           aRows * aCols \<le> length a \<and> bRows * bCols \<le> length b"
    then show "length (take (aRows * bRows)
        (?run (take (aRows * aCols) a) (take (bRows * bCols) b) d_C) @ drop (aRows * bRows) out)
        = aRows * bRows"
      by (simp add: sweep_const_length)
    {
      fix i j assume "aCols \<le> bCols" "i < aRows" "j < bRows"
      with l show "(take (aRows * bRows)
        (?run (take (aRows * aCols) a) (take (bRows * bCols) b) d_C) @ drop (aRows * bRows) out)
         ! (i * bRows + j)
       = (\<Sum>k<aCols. a ! (i * aCols + k) * b ! (j * aCols + k))"
        by (intro naive_cell) simp_all
    }
    assume "aCols = 0"
    with l show "take (aRows * bRows)
        (?run (take (aRows * aCols) a) (take (bRows * bCols) b) d_C) @ drop (aRows * bRows) out
       = replicate (aRows * bRows) 0"
      by (intro naive_zero) simp_all
  next
    assume "aRows = 0 \<or> bRows = 0"
    then show "take (aRows * bRows)
        (?run (take (aRows * aCols) a) (take (bRows * bCols) b) d_C) @ drop (aRows * bRows) out
       = out"
      by auto
  qed
qed

theorem matmul_entry_points_report_nothing_witness:
  "matMulCUDA [1, 2] 1 2 [3, 4, 5] 1 3 [0] blank_tile blank_tile = Inr [11 :: int] \<and>
   matMulCUDANaive [1, 2] 1 2 [3, 4, 5] 1 3 [0] [9] = Inr [11 :: int] \<and>
   matMulCUDA [1, 2] 0 2 [3, 4, 5] 1 3 [] blank_tile blank_tile = Inr ([] :: int list)"
proof -
  from matmul_entry_points_report_nothing [where a = "[1, 2 :: int]" and aRows = 1 and aCols = 2
      and b = "[3, 4, 5]" and bRows = 1 and bCols = 3 and out = "[0]"
      and ?As0.0 = blank_tile and ?Bs0.0 = blank_tile and d_C = "[9]"]
  have "matMulCUDA [1, 2] 1 2 [3, 4, 5] 1 3 [0] blank_tile blank_tile = Inr [11 :: int]"
    and "matMulCUDANaive [1, 2] 1 2 [3, 4, 5] 1 3 [0] [9] = Inr [11 :: int]"
    by (auto split: sum.splits simp: lessThan_Suc eval_nat_numeral intro!: singleton_list)
  moreover from matmul_entry_points_report_nothing [where a = "[1, 2 :: int]" and aRows = 0
      and aCols = 2 and b = "[3, 4, 5]" and bRows = 1 and bCols = 3 and out = "[]"
      and ?As0.0 = blank_tile and ?Bs0.0 = blank_tile and d_C = "[]"]
  have "matMulCUDA [1, 2] 0 2 [3, 4, 5] 1 3 [] blank_tile blank_tile = Inr ([] :: int list)"
    by (auto split: sum.splits)
  ultimately show ?thesis by simp
qed

text \<open>
  C5. For \<open>A\<close> of \<open>aRows * aCols\<close> entries and \<open>B\<close> of \<open>bRows * bCols\<close> entries with
  \<open>aCols = bCols\<close>, both matrix-multiply kernels, launched as the entry points launch
  them, leave in the \<open>aRows * bRows\<close> cells of the result the dot products of the rows
  of \<open>A\<close> with the rows of \<open>B\<close>: every cell is overwritten, whatever it held. In the
  tiled kernel the load phase stores zero in every tile element outside the matrix, for
  any dimensions, multiples of 32 or not, so the padded products add nothing.
  (Arithmetic is that of a semiring: rounding is not modelled.)
\<close>

theorem matmul_computes_A_times_B_transpose:
  fixes a b out d_C :: "'a::semiring_0 list"
  assumes la: "length a = aRows * aCols" and lb: "length b = bRows * bCols"
    and cols: "aCols = bCols"
    and lo: "length out = aRows * bRows" and ld: "length d_C = aRows * bRows"
  shows
    "(case matMulCUDA a aRows aCols b bRows bCols out As0 Bs0 of
        Inl e \<Rightarrow> False
      | Inr C \<Rightarrow> length C = aRows * bRows \<and>
          (\<forall>i<aRows. \<forall>j<bRows.
             C ! (i * bRows + j) = (\<Sum>k<aCols. a ! (i * aCols + k) * b ! (j * bCols + k)))) \<and>
     (case matMulCUDANaive a aRows aCols b bRows bCols out d_C of
        Inl e \<Rightarrow> False
      | Inr C \<Rightarrow> length C = aRows * bRows \<and>
          (\<forall>i<aRows. \<forall>j<bRows.
             C ! (i * bRows + j) = (\<Sum>k<aCols. a ! (i * aCols + k) * b ! (j * bCols + k)))) \<and>
     (\<forall>m bx byy x y AB. x < 32 \<and> y < 32 \<longrightarrow>
        (\<not> (m * 32 + x < aCols \<and> byy * 32 + y < aRows) \<longrightarrow>
           fst (fold (load_tiles a b aRows aCols bRows 32 32 m) (block_threads 32 32 bx byy) AB)
             (y, x) = 0) \<and>
        (\<not> (m * 32 + y < aCols \<and> bx * 32 + x < bRows) \<longrightarrow>
           snd (fold (load_tiles a b aRows aCols bRows 32 32 m) (block_threads 32 32 bx byy) AB)
             (y, x) = 0))"
proof (intro conjI)
  let ?G = "\<lambda>p. dot a b aCols (p div bRows) (p mod bRows)"
  let ?ts = "grid_threads ((bRows + 32 - 1) div 32) ((aRows + 32 - 1) div 32) 32 32"
  have cell: "sweep (cell_of aRows bRows) (\<lambda>p C. C[p := ?G p]) ?ts C0 ! (i * bRows + j)
      = (\<Sum>k<aCols. a ! (i * aCols + k) * b ! (j * bCols + k))"
    if "length C0 = aRows * bRows" "i < aRows" "j < bRows" for C0 :: "'a list" and i j
    using launch_cells [OF that, of a b aCols] by (simp add: dot_def cols)
  have len: "length (sweep (cell_of aRows bRows) (\<lambda>p C. C[p := ?G p]) ?ts C0) = length C0"
    for C0 :: "'a list"
    by (rule sweep_const_length)
  show "case matMulCUDA a aRows aCols b bRows bCols out As0 Bs0 of
        Inl e \<Rightarrow> False
      | Inr C \<Rightarrow> length C = aRows * bRows \<and>
          (\<forall>i<aRows. \<forall>j<bRows.
             C ! (i * bRows + j) = (\<Sum>k<aCols. a ! (i * aCols + k) * b ! (j * bCols + k)))"
    using cell [OF lo] len [of out] lo by (simp add: matMulCUDA_result)
  have tk: "take (aRows * aCols) a = a" "take (bRows * bCols) b = b"
    using la lb by simp_all
  show "case matMulCUDANaive a aRows aCols b bRows bCols out d_C of
        Inl e \<Rightarrow> False
      | Inr C \<Rightarrow> length C = aRows * bRows \<and>
          (\<forall>i<aRows. \<forall>j<bRows.
             C ! (i * bRows + j) = (\<Sum>k<aCols. a ! (i * aCols + k) * b ! (j * bCols + k)))"
    using cell [OF ld] len [of d_C] ld lo by (simp add: matMulCUDANaive_result tk)
  show "\<forall>m bx byy x y AB. x < 32 \<and> y < 32 \<longrightarrow>
        (\<not> (m * 32 + x < aCols \<and> byy * 32 + y < aRows) \<longrightarrow>
           fst (fold (load_tiles a b aRows aCols bRows 32 32 m) (block_threads 32 32 bx byy) AB)
             (y, x) = 0) \<and>
        (\<not> (m * 32 + y < aCols \<and> bx * 32 + x < bRows) \<longrightarrow>
           snd (fold (load_tiles a b aRows aCols bRows 32 32 m) (block_threads 32 32 bx byy) AB)
             (y, x) = 0)"
  proof (intro allI impI)
    fix m bx byy x y :: nat and AB :: "'a tile \<times> 'a tile"
    assume "x < 32 \<and> y < 32"
    then have x: "x < 32" and y: "y < 32" by simp_all
    from load_phase [OF x y, of a b aRows aCols bRows m bx byy AB]
    show "(\<not> (m * 32 + x < aCols \<and> byy * 32 + y < aRows) \<longrightarrow>
           fst (fold (load_tiles a b aRows aCols bRows 32 32 m) (block_threads 32 32 bx byy) AB)
             (y, x) = 0) \<and>
        (\<not> (m * 32 + y < aCols \<and> bx * 32 + x < bRows) \<longrightarrow>
           snd (fold (load_tiles a b aRows aCols bRows 32 32 m) (block_threads 32 32 bx byy) AB)
             (y, x) = 0)"
      by simp
  qed
qed

theorem matmul_computes_A_times_B_transpose_witness:
  "matMulCUDA [1, 2, 3, 4] 2 2 [5, 6] 1 2 [0, 0] blank_tile blank_tile = Inr [17, 39 :: int] \<and>
   matMulCUDANaive [1, 2, 3, 4] 2 2 [5, 6] 1 2 [0, 0] [7, 7] = Inr [17, 39 :: int]"
proof -
  have h: "length [1, 2, 3, 4 :: int] = 2 * 2" "length [5, 6 :: int] = 1 * 2" "(2::nat) = 2"
    "length [0, 0 :: int] = 2 * 1" "length [7, 7 :: int] = 2 * 1"
    by simp_all
  have two: "C = [u, v]" if "length C = 2" "C ! 0 = u" "C ! 1 = v" for C :: "int list" and u v
    using that by (cases C; cases "tl C") auto
  from matmul_computes_A_times_B_transpose [OF h, where ?As0.0 = blank_tile and ?Bs0.0 = blank_tile]
  show ?thesis
    by (auto split: sum.splits simp: lessThan_Suc eval_nat_numeral All_less_Suc intro!: two)
qed

text \<open>
  C6 (corrected). The mask of \<^verbatim>\<open>tril\<close> is computed from the flat index, not from the row
  and the column: the macro text is \<^verbatim>\<open>(i / k < i % (int)k) ? 0 : exp(b / 8)\<close>. In a
  2 x 2 matrix with \<open>k = 2\<close> the entry in row 1 and column 1 satisfies the claim's
  condition (1/2 is below 1 mod 2, with real and with integer division), but its flat
  index 3 gives 3/2 against 3 mod 2 = 1, so it becomes the exponential of \<open>0 / 8\<close>, which
  is 1, not 0. Every number involved is a float, so that no operation rounds; the
  exponential is instantiated with the real one, whose value at 0 is 1.
\<close>

theorem tril_row_col_mask_counterexample:
  "(1::nat) div 2 < 1 mod 2 \<and> (1::real) / 2 < real (1 mod 2) \<and>
   fst (trilCUDA exp (store_of [[0, 0, 0, 0]]) \<lparr>dat = 0, rows = 2, cols = 2\<rparr> 2) 0 ! (1 * 2 + 1) \<noteq> 0"
proof -
  have mask: "\<not> float_div (float_of_int (int 3)) 2 < float_of_int (int 3 smod int_of_float 2)"
    using tril_mask_square [of 1 2 1] by simp
  have "fst (trilCUDA exp (store_of [[0, 0, 0, 0]]) \<lparr>dat = 0, rows = 2, cols = 2\<rparr> 2) 0 ! 3 = 1"
    using tril_sweep_cell [where s = "store_of [[0, 0, 0, 0]]" and a = 0 and n = "2 * 2"
        and p = 3 and k = 2 and nc = 2 and fexp = exp, OF covering_grid] mask
    by (simp add: trilCUDA_def UNARY_CUDA_sweep float_div_def round32_def)
  then show ?thesis by simp
qed

text \<open>
  C6 as amended. Take a buffer of \<open>rows * cols\<close> entries, fewer than \<open>2 ^ 31\<close>, and a block
  width \<open>k\<close> of magnitude below \<open>2 ^ 31\<close> whose integer part is not zero. Then \<^verbatim>\<open>tril\<close> (GPU
  and CPU reference) stores 0 in exactly the entries whose flat index
  \<open>i = row * cols + col\<close> satisfies \<open>i / k < i mod (int) k\<close>, where \<open>i\<close> is converted to float
  and divided by \<open>k\<close> in binary32, and stores in every other entry \<open>x\<close> what the library's
  \<^verbatim>\<open>exp\<close> returns for the float quotient \<open>x / 8\<close> (a float, which may be rounded and, for
  very negative \<open>x\<close>, may itself be 0). The statement holds for every \<open>fexp\<close>, hence for the
  exponential of the device in \<^verbatim>\<open>trilCUDA\<close> and for that of the host in \<^verbatim>\<open>tril\<close>. When \<open>k\<close> is
  the column count and the matrix has at most \<open>2 ^ 24\<close> entries, the entries that get the
  0 of the mask are exactly those with \<open>row < col\<close>, the ones above the diagonal. The
  bound is needed: the flat index of a larger matrix need not be a float, and lemma
  \<open>tril_mask_width_4097\<close> shows that with 4097 columns the entry in row 4095 and column
  4096 is not masked.
\<close>

theorem tril_masks_by_flat_index:
  assumes len: "length (s (dat m)) = rows m * cols m" and size: "rows m * cols m < 2 ^ 31"
    and k: "int_of_float k \<noteq> 0" and kb: "\<bar>k\<bar> < 2 ^ 31"
  shows
    "(\<forall>i<rows m * cols m.
        fst (trilCUDA fexp s m k) (dat m) ! i =
          (if float_div (float_of_int (int i)) k < float_of_int (int i smod int_of_float k) then 0
           else fexp (float_div (s (dat m) ! i) 8)) \<and>
        fst (tril fexp s m k) (dat m) ! i =
          (if float_div (float_of_int (int i)) k < float_of_int (int i smod int_of_float k) then 0
           else fexp (float_div (s (dat m) ! i) 8))) \<and>
     (rows m * cols m \<le> 2 ^ 24 \<longrightarrow>
      (\<forall>r<rows m. \<forall>c<cols m.
        fst (trilCUDA fexp s m (real (cols m))) (dat m) ! (r * cols m + c) =
          (if r < c then 0 else fexp (float_div (s (dat m) ! (r * cols m + c)) 8)) \<and>
        fst (tril fexp s m (real (cols m))) (dat m) ! (r * cols m + c) =
          (if r < c then 0 else fexp (float_div (s (dat m) ! (r * cols m + c)) 8))))"
proof (intro conjI allI impI)
  fix i assume i: "i < rows m * cols m"
  show "fst (trilCUDA fexp s m k) (dat m) ! i =
          (if float_div (float_of_int (int i)) k < float_of_int (int i smod int_of_float k) then 0
           else fexp (float_div (s (dat m) ! i) 8))"
    using tril_sweep_cell [where s = s and a = "dat m", OF covering_grid len i]
    by (simp add: trilCUDA_def UNARY_CUDA_sweep)
  show "fst (tril fexp s m k) (dat m) ! i =
          (if float_div (float_of_int (int i)) k < float_of_int (int i smod int_of_float k) then 0
           else fexp (float_div (s (dat m) ! i) 8))"
    using tril_sweep_cell [where s = s and a = "dat m", OF covering_upt len i]
    by (simp add: tril_def UNARY_sweep)
next
  fix r c assume small: "rows m * cols m \<le> 2 ^ 24" and rc: "r < rows m" "c < cols m"
  from rc have p: "r * cols m + c < rows m * cols m" by (rule cell_bound)
  then have pb: "r * cols m + c < 2 ^ 24" using small by (rule less_le_trans)
  have "1 \<le> rows m" using rc(1) by simp
  then have "1 * cols m \<le> rows m * cols m" by (rule mult_le_mono1)
  then have "cols m \<le> rows m * cols m" by (simp only: mult_1)
  then have nb: "cols m \<le> 2 ^ 24" using small by (rule order_trans)
  note mask = tril_mask_square [OF rc(2) nb pb]
  show "fst (trilCUDA fexp s m (real (cols m))) (dat m) ! (r * cols m + c) =
          (if r < c then 0 else fexp (float_div (s (dat m) ! (r * cols m + c)) 8))"
    using tril_sweep_cell [where s = s and a = "dat m", OF covering_grid len p]
    by (simp only: trilCUDA_def UNARY_CUDA_sweep fst_conv mask)
  show "fst (tril fexp s m (real (cols m))) (dat m) ! (r * cols m + c) =
          (if r < c then 0 else fexp (float_div (s (dat m) ! (r * cols m + c)) 8))"
    using tril_sweep_cell [where s = s and a = "dat m", OF covering_upt len p]
    by (simp only: tril_def UNARY_sweep fst_conv mask)
qed

theorem tril_masks_by_flat_index_witness:
  "fst (trilCUDA exp (store_of [[0, 8, 16, 24]]) \<lparr>dat = 0, rows = 2, cols = 2\<rparr> 2) 0 ! (0 * 2 + 1) = 0 \<and>
   fst (trilCUDA exp (store_of [[0, 8, 16, 24]]) \<lparr>dat = 0, rows = 2, cols = 2\<rparr> 2) 0 ! (1 * 2 + 1) = exp 3"
proof -
  have h: "length (store_of [[0, 8, 16, 24]] (dat \<lparr>dat = 0, rows = 2, cols = 2\<rparr>))
          = rows \<lparr>dat = 0, rows = 2, cols = 2\<rparr> * cols \<lparr>dat = 0, rows = 2, cols = 2\<rparr>"
    and size: "rows \<lparr>dat = 0, rows = 2, cols = 2\<rparr> * cols \<lparr>dat = 0, rows = 2, cols = 2\<rparr> < 2 ^ 31"
    and k: "int_of_float 2 \<noteq> 0" and kb: "\<bar>2 :: real\<bar> < 2 ^ 31"
    and small: "rows \<lparr>dat = 0, rows = 2, cols = 2\<rparr> * cols \<lparr>dat = 0, rows = 2, cols = 2\<rparr> \<le> 2 ^ 24"
    by (simp_all add: int_of_float_def)
  have three: "float_div 24 8 = 3"
    using round32_of_int [of 3] by (simp add: float_div_def)
  from tril_masks_by_flat_index [where s = "store_of [[0, 8, 16, 24]]" and fexp = exp
      and m = "\<lparr>dat = 0, rows = 2, cols = 2\<rparr>" and k = 2, OF h size k kb,
      THEN conjunct2, rule_format, OF small, of 0 1]
    tril_masks_by_flat_index [where s = "store_of [[0, 8, 16, 24]]" and fexp = exp
      and m = "\<lparr>dat = 0, rows = 2, cols = 2\<rparr>" and k = 2, OF h size k kb,
      THEN conjunct2, rule_format, OF small, of 1 1]
  show ?thesis by (simp add: three)
qed



text \<open>
  C8. For a matrix of \<open>rows * cols\<close> entries and an output buffer, distinct from it, of
  the same size, \<^verbatim>\<open>transposeCUDA\<close> leaves in the output the \<open>cols * rows\<close> matrix whose
  entry in row \<open>c\<close> and column \<open>r\<close> is the entry of the input in row \<open>r\<close> and column
  \<open>c\<close>. Transposing the result again (as a \<open>cols * rows\<close> matrix) into a third buffer,
  or back into the first, reproduces the original entries exactly, whatever their
  values, hence also within 1e-2.
\<close>

theorem transposeCUDA_transposes_and_round_trips:
  assumes la: "length (s (dat a)) = rows a * cols a"
    and lo: "length (s (dat out)) = rows a * cols a"
    and lb: "length (s (dat b)) = rows a * cols a"
    and ne: "dat a \<noteq> dat out" and neb: "dat b \<noteq> dat out"
  shows
    "(\<forall>r<rows a. \<forall>c<cols a.
        transposeCUDA s a out tile0 (dat out) ! (c * rows a + r) = s (dat a) ! (r * cols a + c)) \<and>
     length (transposeCUDA s a out tile0 (dat out)) = cols a * rows a \<and>
     transposeCUDA (transposeCUDA s a out tile0) \<lparr>dat = dat out, rows = cols a, cols = rows a\<rparr> b tile1
       (dat b) = s (dat a) \<and>
     (\<forall>i<rows a * cols a.
        \<bar>transposeCUDA (transposeCUDA s a out tile0) \<lparr>dat = dat out, rows = cols a, cols = rows a\<rparr>
            b tile1 (dat b) ! i - s (dat a) ! i\<bar> \<le> 1 / 100)"
proof -
  define s1 where "s1 = transposeCUDA s a out tile0"
  define s2 where "s2 = transposeCUDA s1 \<lparr>dat = dat out, rows = cols a, cols = rows a\<rparr> b tile1"
  have one: "s1 (dat out) ! (c * rows a + r) = s (dat a) ! (r * cols a + c)"
    if "r < rows a" "c < cols a" for r c
    using transpose_launch_cell [OF that lo, of "s (dat a)" tile0]
    by (simp add: s1_def transposeCUDA_def)
  have l1: "length (s1 (dat out)) = cols a * rows a"
    using lo by (simp add: s1_def transposeCUDA_def transpose_launch_length mult.commute)
  have b1: "length (s1 (dat b)) = cols a * rows a"
    using lb neb by (simp add: s1_def transposeCUDA_def mult.commute)
  have two: "s2 (dat b) ! (r * cols a + c) = s1 (dat out) ! (c * rows a + r)"
    if "r < rows a" "c < cols a" for r c
    using transpose_launch_cell [OF that(2,1) b1, of "s1 (dat out)" tile1]
    by (simp add: s2_def transposeCUDA_def)
  have l2: "length (s2 (dat b)) = rows a * cols a"
    using b1 by (simp add: s2_def transposeCUDA_def transpose_launch_length mult.commute)
  have roundtrip: "s2 (dat b) = s (dat a)"
  proof (rule nth_equalityI)
    show "length (s2 (dat b)) = length (s (dat a))" using l2 la by simp
    fix p assume "p < length (s2 (dat b))"
    then have p: "p < rows a * cols a" using l2 by simp
    then have nc: "0 < cols a" by (cases "cols a") auto
    have r: "p div cols a < rows a" using p by (simp add: less_mult_imp_div_less)
    have c: "p mod cols a < cols a" using nc by simp
    have "s2 (dat b) ! ((p div cols a) * cols a + p mod cols a)
          = s (dat a) ! ((p div cols a) * cols a + p mod cols a)"
      using two [OF r c] one [OF r c] by simp
    then show "s2 (dat b) ! p = s (dat a) ! p" by simp
  qed
  show ?thesis
    using one l1 roundtrip by (simp add: s1_def [symmetric] s2_def [symmetric])
qed

theorem transposeCUDA_transposes_and_round_trips_witness:
  "transposeCUDA (store_of [[1, 2, 3, 4, 5, 6], [0, 0, 0, 0, 0, 0], [7, 7, 7, 7, 7, 7]])
      \<lparr>dat = 0, rows = 2, cols = 3\<rparr> \<lparr>dat = 1, rows = 3, cols = 2\<rparr> blank_tile 1 ! (1 * 2 + 0) = 2 \<and>
   transposeCUDA
      (transposeCUDA (store_of [[1, 2, 3, 4, 5, 6], [0, 0, 0, 0, 0, 0], [7, 7, 7, 7, 7, 7]])
         \<lparr>dat = 0, rows = 2, cols = 3\<rparr> \<lparr>dat = 1, rows = 3, cols = 2\<rparr> blank_tile)
      \<lparr>dat = 1, rows = 3, cols = 2\<rparr> \<lparr>dat = 2, rows = 2, cols = 3\<rparr> blank_tile 2
     = [1, 2, 3, 4, 5, 6]"
proof -
  let ?s = "store_of [[1, 2, 3, 4, 5, 6], [0, 0, 0, 0, 0, 0], [7, 7, 7, 7, 7, 7]]"
  let ?a = "\<lparr>dat = 0, rows = 2, cols = 3\<rparr>"
  let ?out = "\<lparr>dat = 1, rows = 3, cols = 2\<rparr>"
  let ?b = "\<lparr>dat = 2, rows = 2, cols = 3\<rparr>"
  have h: "length (?s (dat ?a)) = rows ?a * cols ?a" "length (?s (dat ?out)) = rows ?a * cols ?a"
    "length (?s (dat ?b)) = rows ?a * cols ?a" "dat ?a \<noteq> dat ?out" "dat ?b \<noteq> dat ?out"
    by simp_all
  note t = transposeCUDA_transposes_and_round_trips [where s = ?s and a = ?a and out = ?out
      and b = ?b and ?tile0.0 = blank_tile and ?tile1.0 = blank_tile, OF h]
  from t [THEN conjunct1, rule_format, of 0 1] t [THEN conjunct2, THEN conjunct2, THEN conjunct1]
  show ?thesis by simp
qed

text \<open>
  C9. Every in-place elementwise operator generated by the \<^verbatim>\<open>UNARY\<close> and \<^verbatim>\<open>BINARY\<close>
  macros returns the descriptor it was given as first operand (same \<^verbatim>\<open>dat\<close>, \<^verbatim>\<open>rows\<close>
  and \<^verbatim>\<open>cols\<close>). When the buffer of that operand holds \<open>rows * cols\<close> entries, so that
  every write is in range, the store is changed at that buffer only and the buffer keeps
  its length: nothing is allocated. The statement holds for every \<^verbatim>\<open>opr\<close>, hence for
  each of the generated operators.
\<close>

theorem inplace_operators_return_descriptor:
  "snd (UNARY_CUDA uopr s m k) = m \<and>
   snd (BINARY_CUDA bopr s a b) = a \<and>
   (length (s (dat m)) = rows m * cols m \<longrightarrow>
      fst (UNARY_CUDA uopr s m k) = s(dat m := fst (UNARY_CUDA uopr s m k) (dat m)) \<and>
      length (fst (UNARY_CUDA uopr s m k) (dat m)) = length (s (dat m))) \<and>
   (length (s (dat a)) = rows a * cols a \<longrightarrow>
      fst (BINARY_CUDA bopr s a b) = s(dat a := fst (BINARY_CUDA bopr s a b) (dat a)) \<and>
      length (fst (BINARY_CUDA bopr s a b) (dat a)) = length (s (dat a)))"
  using unary_sweep_frame [of "cell_of (rows m) (cols m)" uopr "dat m" "cols m" k _ s]
        binary_sweep_frame [of "cell_of (rows a) (cols a)" bopr "dat a" "cols a" "dat b" _ s]
  by (simp add: UNARY_CUDA_sweep BINARY_CUDA_sweep)

theorem inplace_operators_return_descriptor_witness:
  "snd (add_constCUDA (store_of [[1, 2, 3, 4], [5, 6, 7, 8]]) \<lparr>dat = 0, rows = 2, cols = 2\<rparr> 1)
     = \<lparr>dat = 0, rows = 2, cols = 2\<rparr> \<and>
   fst (add_constCUDA (store_of [[1, 2, 3, 4], [5, 6, 7, 8]]) \<lparr>dat = 0, rows = 2, cols = 2\<rparr> 1) 1
     = [5, 6, 7, 8] \<and>
   length (fst (addCUDA (store_of [[1, 2, 3, 4], [5, 6, 7, 8]]) \<lparr>dat = 0, rows = 2, cols = 2\<rparr>
                  \<lparr>dat = 1, rows = 2, cols = 2\<rparr>) 0) = 4"
proof -
  let ?s = "store_of [[1, 2, 3, 4], [5, 6, 7, 8]]"
  let ?m = "\<lparr>dat = 0, rows = 2, cols = 2\<rparr>"
  let ?b = "\<lparr>dat = 1, rows = 2, cols = 2\<rparr>"
  have h: "length (?s (dat ?m)) = rows ?m * cols ?m" by simp
  note t = inplace_operators_return_descriptor [where s = ?s and m = ?m and a = ?m and b = ?b
      and uopr = opr_add_const and bopr = opr_add and k = 1]
  from t have 1: "snd (add_constCUDA ?s ?m 1) = ?m" by (simp add: add_constCUDA_def)
  from t h have "fst (add_constCUDA ?s ?m 1) = ?s(dat ?m := fst (add_constCUDA ?s ?m 1) (dat ?m))"
    unfolding add_constCUDA_def by blast
  from fun_cong [OF this, of 1] have 2: "fst (add_constCUDA ?s ?m 1) 1 = [5, 6, 7, 8]" by simp
  from t h have "length (fst (addCUDA ?s ?m ?b) (dat ?m)) = length (?s (dat ?m))"
    unfolding addCUDA_def by blast
  then have 3: "length (fst (addCUDA ?s ?m ?b) 0) = 4" by simp
  from 1 2 3 show ?thesis by simp
qed

text \<open>
  C10. \<^verbatim>\<open>broadcast\<close> is idempotent, on the GPU and in the CPU reference: for a matrix
  whose buffer holds \<open>rows * cols\<close> entries, one application leaves in every entry of a
  row the column-0 value the row had before (so column 0 itself is unchanged), and a
  second application gives the same store again.
\<close>

theorem broadcast_idempotent:
  assumes "length (s (dat m)) = rows m * cols m"
  shows "fst (broadcastCUDA (fst (broadcastCUDA s m k)) m k') = fst (broadcastCUDA s m k) \<and>
         (\<forall>r<rows m. \<forall>c<cols m.
            fst (broadcastCUDA s m k) (dat m) ! (r * cols m + c) = s (dat m) ! (r * cols m)) \<and>
         fst (broadcast (fst (broadcast s m k)) m k') = fst (broadcast s m k) \<and>
         (\<forall>r<rows m. \<forall>c<cols m.
            fst (broadcast s m k) (dat m) ! (r * cols m + c) = s (dat m) ! (r * cols m))"
  using broadcast_sweep_idem [where s = s and a = "dat m", OF covering_grid assms]
    broadcast_sweep_idem [where s = s and a = "dat m", OF covering_upt assms]
    broadcast_sweep_cell [where s = s and a = "dat m", OF covering_grid assms]
    broadcast_sweep_cell [where s = s and a = "dat m", OF covering_upt assms]
  by (simp add: broadcastCUDA_def broadcast_def UNARY_CUDA_sweep UNARY_sweep)

theorem broadcast_idempotent_witness:
  "length (store_of [[1, 2, 3, 4]] (dat \<lparr>dat = 0, rows = 2, cols = 2\<rparr>))
     = rows \<lparr>dat = 0, rows = 2, cols = 2\<rparr> * cols \<lparr>dat = 0, rows = 2, cols = 2\<rparr> \<and>
   fst (broadcastCUDA (fst (broadcastCUDA (store_of [[1, 2, 3, 4]]) \<lparr>dat = 0, rows = 2, cols = 2\<rparr> 0))
          \<lparr>dat = 0, rows = 2, cols = 2\<rparr> 0)
   = fst (broadcastCUDA (store_of [[1, 2, 3, 4]]) \<lparr>dat = 0, rows = 2, cols = 2\<rparr> 0)"
proof -
  have h: "length (store_of [[1, 2, 3, 4]] (dat \<lparr>dat = 0, rows = 2, cols = 2\<rparr>))
     = rows \<lparr>dat = 0, rows = 2, cols = 2\<rparr> * cols \<lparr>dat = 0, rows = 2, cols = 2\<rparr>"
    by simp
  from broadcast_idempotent [where s = "store_of [[1, 2, 3, 4]]"
      and m = "\<lparr>dat = 0, rows = 2, cols = 2\<rparr>" and k = 0 and k' = 0, OF h] h
  show ?thesis by blast
qed

end
